theory Spec2Isabelle
  imports Main "HOL-Library.List_Lexorder" "HOL-Library.Char_ord"
begin

section \<open>Wire vocabulary (rpc.ts, lines 318-369)\<close>

definition unknownValue :: string where
  "unknownValue = ''04da6b54-80e4-46f7-96ec-b56ff0331ba9''"

definition specialSigKey :: string where
  "specialSigKey = ''4dabf18193072939515e22adb298388d''"

definition specialAssetSig :: string where
  "specialAssetSig = ''c44067f5952c0a294b673a41bacd8c17''"

definition specialArchiveSig :: string where
  "specialArchiveSig = ''0def7320c3a5731c473e5ecbe6d01bc7''"

definition specialSecretSig :: string where
  "specialSecretSig = ''1b47061264138c4ac30d75fd1eb44270''"

definition specialResourceSig :: string where
  "specialResourceSig = ''5cf8f73096256a8f31e491e813e4eb8e''"

definition specialOutputValueSig :: string where
  "specialOutputValueSig = ''d0e6a833031e9bbcd3f4e8bde6ca49a4''"

text \<open>
  A protocol value as JavaScript sees it. An object is the list of its own enumerable
  members in \<open>Object.keys\<close> order; a member may hold the literal \<open>undefined\<close>, which is
  not the same as the member being absent. Numbers are opaque payloads here; only
  zero matters (it is falsy).
\<close>

datatype wire =
    WUndefined
  | WNull
  | WBool bool
  | WNum int
  | WStr string
  | WArr "wire list"
  | WObj "(string \<times> wire) list"

text \<open>\<open>obj[k]\<close>: the member, or \<open>undefined\<close> when there is none.\<close>

definition getProp :: "(string \<times> wire) list \<Rightarrow> string \<Rightarrow> wire" where
  "getProp kvs k = (case map_of kvs k of None \<Rightarrow> WUndefined | Some v \<Rightarrow> v)"

text \<open>\<open>obj[k] = v\<close>: overwrite in place, or append a new member.\<close>

fun setProp :: "string \<Rightarrow> 'a \<Rightarrow> (string \<times> 'a) list \<Rightarrow> (string \<times> 'a) list" where
  "setProp k v [] = [(k, v)]"
| "setProp k v ((k', v') # rest) =
     (if k = k' then (k, v) # rest else (k', v') # setProp k v rest)"

text \<open>JavaScript truthiness of a protocol value (\<open>if (x)\<close>, \<open>x && y\<close>).\<close>

fun truthy :: "wire \<Rightarrow> bool" where
  "truthy WUndefined = False"
| "truthy WNull = False"
| "truthy (WBool b) = b"
| "truthy (WNum n) = (n \<noteq> 0)"
| "truthy (WStr s) = (s \<noteq> [])"
| "truthy (WArr xs) = True"
| "truthy (WObj kvs) = True"

section \<open>Deserialized values\<close>

text \<open>
  What \<open>deserializeProperty\<close> hands back: plain data, the \<open>unknown\<close> sentinel, asset and
  archive objects (their constructor argument kept as received), resources built by a
  registered package or module (named by the handle of the registry entry and the three
  constructor arguments \<open>urnName\<close>, \<open>type\<close>, \<open>urn\<close>), and \<open>Output\<close> objects (dependency
  URNs, value, isKnown, isSecret).
\<close>

datatype dval =
    DUndefined
  | DNull
  | DBool bool
  | DNum int
  | DStr string
  | DUnknown
  | DArr "dval list"
  | DObj "(string \<times> dval) list"
  | DFileAsset wire
  | DStringAsset wire
  | DRemoteAsset wire
  | DAssetArchive "(string \<times> dval) list"
  | DFileArchive wire
  | DRemoteArchive wire
  | DProvider nat "string option" string string
  | DResource nat "string option" string string
  | DOutput "wire list" dval bool bool

text \<open>\<open>isRpcSecret\<close> (lines 632-634): \<open>obj && obj[specialSigKey] === specialSecretSig\<close>.\<close>

fun isRpcSecret :: "dval \<Rightarrow> bool" where
  "isRpcSecret (DObj kvs) = (map_of kvs specialSigKey = Some (DStr specialSecretSig))"
| "isRpcSecret _ = False"

text \<open>\<open>unwrapRpcSecret\<close> (lines 640-645): \<open>obj.value\<close> of a secret, else the value itself.\<close>

fun unwrapRpcSecret :: "dval \<Rightarrow> dval" where
  "unwrapRpcSecret (DObj kvs) =
     (if isRpcSecret (DObj kvs)
      then (case map_of kvs ''value'' of None \<Rightarrow> DUndefined | Some v \<Rightarrow> v)
      else DObj kvs)"
| "unwrapRpcSecret d = d"

text \<open>The secret envelope \<open>{[specialSigKey]: specialSecretSig, value: v}\<close>.\<close>

definition secretEnvelope :: "dval \<Rightarrow> dval" where
  "secretEnvelope v = DObj [(specialSigKey, DStr specialSecretSig), (''value'', v)]"

section \<open>Property transfer (rpc.ts, lines 61-138)\<close>

text \<open>
  A promise created by \<open>new Promise((resolve, reject) => ...)\<close> together with its two
  settling functions: only the first call of either has an effect.
\<close>

datatype ('a, 'e) deferred = Pending | Fulfilled 'a | Rejected 'e

fun resolveWith :: "'a \<Rightarrow> ('a, 'e) deferred \<Rightarrow> ('a, 'e) deferred" where
  "resolveWith v Pending = Fulfilled v"
| "resolveWith v d = d"

fun rejectWith :: "'e \<Rightarrow> ('a, 'e) deferred \<Rightarrow> ('a, 'e) deferred" where
  "rejectWith e Pending = Rejected e"
| "rejectWith e d = d"

text \<open>The four promises behind one transferred property.\<close>

record ('v, 'r, 'e) placeholder =
  valueP :: "('v, 'e) deferred"
  isKnownP :: "(bool, 'e) deferred"
  isSecretP :: "(bool, 'e) deferred"
  depsP :: "('r list, 'e) deferred"

definition unresolved :: "('v, 'r, 'e) placeholder" where
  "unresolved = \<lparr>valueP = Pending, isKnownP = Pending, isSecretP = Pending, depsP = Pending\<rparr>"

text \<open>
  The closure stored in \<open>resolvers[k]\<close> (lines 83-101), acting on the four promises it
  captured. \<open>isGrpcError\<close> lives in \<open>../errors\<close> and is a parameter. \<open>deps\<close> has the default
  value \<open>[]\<close>, used when the argument is \<open>undefined\<close>; \<open>err\<close> is optional.
\<close>

definition resolver ::
  "('e \<Rightarrow> bool) \<Rightarrow> 'v \<Rightarrow> bool \<Rightarrow> bool \<Rightarrow> 'r list option \<Rightarrow> 'e option \<Rightarrow>
   ('v, 'r, 'e) placeholder \<Rightarrow> ('v, 'r, 'e) placeholder" where
  "resolver isGrpcError v isKnown isSecret deps err p =
     (case err of
        Some e \<Rightarrow>
          if isGrpcError e then p
          else \<lparr>valueP = rejectWith e (valueP p),
                isKnownP = rejectWith e (isKnownP p),
                isSecretP = rejectWith e (isSecretP p),
                depsP = rejectWith e (depsP p)\<rparr>
      | None \<Rightarrow>
          \<lparr>valueP = resolveWith v (valueP p),
           isKnownP = resolveWith isKnown (isKnownP p),
           isSecretP = resolveWith isSecret (isSecretP p),
           depsP = resolveWith (case deps of None \<Rightarrow> [] | Some d \<Rightarrow> d) (depsP p)\<rparr>)"

text \<open>
  The state \<open>transferProperties\<close> builds: the own properties of the target resource
  (each new one an \<open>Output\<close> over the promises of that key), the promises themselves,
  keyed by property, and the keys of the \<open>resolvers\<close> record in insertion order.
\<close>

datatype ontoProp = Existing | TransferredOutput string

record ('v, 'r, 'e) transfer =
  onto :: "(string \<times> ontoProp) list"
  cells :: "(string \<times> ('v, 'r, 'e) placeholder) list"
  resolverKeys :: "string list"

datatype transferError = AlreadyInitialized string string

text \<open>
  The loop of \<open>transferProperties\<close> over \<open>Object.keys(props)\<close>. The debugging labels of
  the promises are not modelled.
\<close>

fun transferLoop ::
  "string \<Rightarrow> string list \<Rightarrow> ('v, 'r, 'e) transfer \<Rightarrow> transferError + ('v, 'r, 'e) transfer" where
  "transferLoop label [] st = Inr st"
| "transferLoop label (k # ks) st =
     (if k = ''id'' \<or> k = ''urn'' then transferLoop label ks st
      else if map_of (onto st) k \<noteq> None then Inl (AlreadyInitialized k label)
      else transferLoop label ks
             \<lparr>onto = setProp k (TransferredOutput k) (onto st),
              cells = setProp k unresolved (cells st),
              resolverKeys = (if k \<in> set (resolverKeys st) then resolverKeys st
                              else resolverKeys st @ [k])\<rparr>)"

definition transferProperties ::
  "(string \<times> ontoProp) list \<Rightarrow> string \<Rightarrow> (string \<times> 'i) list \<Rightarrow>
   transferError + ('v, 'r, 'e) transfer" where
  "transferProperties target label props =
     transferLoop label (map fst props) \<lparr>onto = target, cells = [], resolverKeys = []\<rparr>"

text \<open>Calling \<open>resolvers[k](v, isKnown, isSecret, deps, err)\<close>.\<close>

definition callResolver ::
  "('e \<Rightarrow> bool) \<Rightarrow> string \<Rightarrow> 'v \<Rightarrow> bool \<Rightarrow> bool \<Rightarrow> 'r list option \<Rightarrow> 'e option \<Rightarrow>
   (string \<times> ('v, 'r, 'e) placeholder) list \<Rightarrow> (string \<times> ('v, 'r, 'e) placeholder) list" where
  "callResolver isGrpcError k v isKnown isSecret deps err cs =
     (case map_of cs k of
        None \<Rightarrow> cs
      | Some p \<Rightarrow> setProp k (resolver isGrpcError v isKnown isSecret deps err p) cs)"

section \<open>Resolving transferred properties (rpc.ts, lines 239-316)\<close>

text \<open>
  A resolver is any function of the five arguments that changes some state or throws.
  An error escaping from the second loop is wrapped (lines 296-300).
\<close>

type_synonym ('r, 'e, 's) resolverFn =
  "dval \<Rightarrow> bool \<Rightarrow> bool \<Rightarrow> 'r list option \<Rightarrow> 'e option \<Rightarrow> 's \<Rightarrow> 'e + 's"

datatype 'e resolveError = Raised 'e | UnableToSetProperty string string string 'e

text \<open>Lines 250-256: with an error, every resolver is called with it.\<close>

fun rejectEverything ::
  "(string \<times> ('r, 'e, 's) resolverFn) list \<Rightarrow> 'e \<Rightarrow> 's \<Rightarrow> 'e resolveError + 's" where
  "rejectEverything [] err s = Inr s"
| "rejectEverything ((k, resolve) # rest) err s =
     (case resolve DUndefined True False (Some []) (Some err) s of
        Inl x \<Rightarrow> Inl (Raised x)
      | Inr s' \<Rightarrow> rejectEverything rest err s')"

text \<open>
  Lines 259-301: the properties the engine returned. \<open>isRpcSecret\<close> of a falsy value is
  that value, passed on as \<open>isSecret\<close>; it is read as \<open>False\<close> here.
\<close>

fun resolvePresent ::
  "(string \<times> ('r, 'e, 's) resolverFn) list \<Rightarrow> string \<Rightarrow> string \<Rightarrow>
   (string \<times> 'r list) list \<Rightarrow> (string \<times> dval) list \<Rightarrow> 's \<Rightarrow> 'e resolveError + 's" where
  "resolvePresent resolvers t name deps [] s = Inr s"
| "resolvePresent resolvers t name deps ((k, v) # rest) s =
     (if k = ''id'' \<or> k = ''urn'' then resolvePresent resolvers t name deps rest s
      else
        (case map_of resolvers k of
           None \<Rightarrow> resolvePresent resolvers t name deps rest s
         | Some resolve \<Rightarrow>
             (case resolve (unwrapRpcSecret v) True (isRpcSecret v) (map_of deps k) None s of
                Inl x \<Rightarrow> Inl (UnableToSetProperty k name t x)
              | Inr s' \<Rightarrow> resolvePresent resolvers t name deps rest s')))"

text \<open>
  Line 309 reads \<open>!isDryRun && keepUnknowns\<close>: the function \<open>isDryRun\<close> is named, not
  called, and a function object is truthy.
\<close>

definition isDryRun_function_truthy :: bool where
  "isDryRun_function_truthy = True"

text \<open>
  Lines 306-315: the resolvers with no property in \<open>allProps\<close>. The first argument
  \<open>dryRun\<close> is the result of the call \<open>isDryRun()\<close> of line 312.
\<close>

fun resolveMissing ::
  "bool \<Rightarrow> bool \<Rightarrow> (string \<times> dval) list \<Rightarrow> (string \<times> ('r, 'e, 's) resolverFn) list \<Rightarrow>
   's \<Rightarrow> 'e resolveError + 's" where
  "resolveMissing dryRun keepUnknowns allProps [] s = Inr s"
| "resolveMissing dryRun keepUnknowns allProps ((k, resolve) # rest) s =
     (if map_of allProps k = None then
        (case (if \<not> isDryRun_function_truthy \<and> keepUnknowns
               then resolve DUnknown True False None None s
               else resolve DUndefined (\<not> dryRun \<and> \<not> keepUnknowns) False None None s) of
           Inl x \<Rightarrow> Inl (Raised x)
         | Inr s' \<Rightarrow> resolveMissing dryRun keepUnknowns allProps rest s')
      else resolveMissing dryRun keepUnknowns allProps rest s)"

definition resolveProperties ::
  "bool \<Rightarrow> (string \<times> ('r, 'e, 's) resolverFn) list \<Rightarrow> string \<Rightarrow> string \<Rightarrow>
   (string \<times> dval) list \<Rightarrow> (string \<times> 'r list) list \<Rightarrow> 'e option \<Rightarrow> bool \<Rightarrow>
   's \<Rightarrow> 'e resolveError + 's" where
  "resolveProperties dryRun resolvers t name allProps deps err keepUnknowns s =
     (case err of
        Some e \<Rightarrow> rejectEverything resolvers e s
      | None \<Rightarrow>
          (case resolvePresent resolvers t name deps allProps s of
             Inl x \<Rightarrow> Inl x
           | Inr s' \<Rightarrow> resolveMissing dryRun keepUnknowns allProps resolvers s'))"

text \<open>A resolver that only records the arguments it was called with.\<close>

type_synonym ('r, 'e) call = "string \<times> dval \<times> bool \<times> bool \<times> 'r list option \<times> 'e option"

definition recordCall :: "string \<Rightarrow> ('r, 'e, ('r, 'e) call list) resolverFn" where
  "recordCall k v isKnown isSecret deps err log = Inr (log @ [(k, v, isKnown, isSecret, deps, err)])"

section \<open>The versioned registry (rpc.ts, lines 867-937)\<close>

subsection \<open>Versions of the semver package\<close>

text \<open>
  \<open>semver\<close> is an npm package, not part of the repository. A parsed version
  (\<open>semver.SemVer\<close>) is its three numbers, its prerelease identifiers (numbers or strings)
  and its build tags. The parser itself is a parameter \<open>parse\<close> of everything below:
  \<open>parse s = None\<close> stands for \<open>new semver.SemVer(s)\<close> throwing its
  \<open>TypeError: Invalid Version\<close>. The comparison is the package's \<open>compare\<close>:
  \<open>compareMain\<close> on the three numbers, then \<open>comparePre\<close> on the prerelease identifiers
  (a version with a prerelease is below the same version without one; numeric identifiers
  are below alphanumeric ones; a longer list is above its prefix); build tags are ignored.
\<close>

datatype preId = Numeric nat | Alphanumeric string

record semver =
  major :: nat
  minor :: nat
  patch :: nat
  prerelease :: "preId list"
  build :: "string list"

datatype cmp = Less | Same | Greater

definition compareNumbers :: "nat \<Rightarrow> nat \<Rightarrow> cmp" where
  "compareNumbers a b = (if a = b then Same else if a < b then Less else Greater)"

fun compareIdentifiers :: "preId \<Rightarrow> preId \<Rightarrow> cmp" where
  "compareIdentifiers (Numeric a) (Numeric b) = compareNumbers a b"
| "compareIdentifiers (Numeric a) (Alphanumeric b) = Less"
| "compareIdentifiers (Alphanumeric a) (Numeric b) = Greater"
| "compareIdentifiers (Alphanumeric a) (Alphanumeric b) =
     (if a = b then Same else if a < b then Less else Greater)"

fun comparePreLoop :: "preId list \<Rightarrow> preId list \<Rightarrow> cmp" where
  "comparePreLoop [] [] = Same"
| "comparePreLoop (a # as) [] = Greater"
| "comparePreLoop [] (b # bs) = Less"
| "comparePreLoop (a # as) (b # bs) =
     (if a = b then comparePreLoop as bs else compareIdentifiers a b)"

definition comparePre :: "semver \<Rightarrow> semver \<Rightarrow> cmp" where
  "comparePre x y =
     (if prerelease x \<noteq> [] \<and> prerelease y = [] then Less
      else if prerelease x = [] \<and> prerelease y \<noteq> [] then Greater
      else if prerelease x = [] \<and> prerelease y = [] then Same
      else comparePreLoop (prerelease x) (prerelease y))"

text \<open>JavaScript's \<open>c || d\<close> on comparison results: the first that is not zero.\<close>

definition orElse :: "cmp \<Rightarrow> cmp \<Rightarrow> cmp" where
  "orElse c d = (case c of Same \<Rightarrow> d | _ \<Rightarrow> c)"

definition compareMain :: "semver \<Rightarrow> semver \<Rightarrow> cmp" where
  "compareMain x y =
     orElse (compareNumbers (major x) (major y))
       (orElse (compareNumbers (minor x) (minor y)) (compareNumbers (patch x) (patch y)))"

definition semverCompare :: "semver \<Rightarrow> semver \<Rightarrow> cmp" where
  "semverCompare x y = orElse (compareMain x y) (comparePre x y)"

definition semver_gt :: "semver \<Rightarrow> semver \<Rightarrow> bool" where
  "semver_gt x y = (semverCompare x y = Greater)"

definition semver_eq :: "semver \<Rightarrow> semver \<Rightarrow> bool" where
  "semver_eq x y = (semverCompare x y = Same)"

subsection \<open>sameVersion, checkVersion, register, getRegistration\<close>

datatype versionError = InvalidVersion string

text \<open>
  A registry entry: any object with an optional \<open>version\<close> string; \<open>body\<close> is the rest
  of it (the constructor functions of a package or module). A table is a
  \<open>Map<string, T[]>\<close>.
\<close>

record 'a registration =
  version :: "string option"
  body :: 'a

definition newSemVer :: "(string \<Rightarrow> semver option) \<Rightarrow> string \<Rightarrow> versionError + semver" where
  "newSemVer parse s = (case parse s of None \<Rightarrow> Inl (InvalidVersion s) | Some v \<Rightarrow> Inr v)"

text \<open>
  Lines 867-870. \<open>semver.eq(a, b)\<close> parses both strings, \<open>a\<close> first, and compares.
\<close>

definition sameVersion ::
  "(string \<Rightarrow> semver option) \<Rightarrow> string option \<Rightarrow> string option \<Rightarrow> versionError + bool" where
  "sameVersion parse a b =
     (case a of
        None \<Rightarrow> Inr True
      | Some x \<Rightarrow>
          (case b of
             None \<Rightarrow> Inr True
           | Some y \<Rightarrow>
               (case newSemVer parse x of
                  Inl e \<Rightarrow> Inl e
                | Inr vx \<Rightarrow>
                    (case newSemVer parse y of
                       Inl e \<Rightarrow> Inl e
                     | Inr vy \<Rightarrow> Inr (semver_eq vx vy)))))"

text \<open>Lines 872-877.\<close>

definition checkVersion :: "semver option \<Rightarrow> semver option \<Rightarrow> bool" where
  "checkVersion want have =
     (case want of
        None \<Rightarrow> True
      | Some w \<Rightarrow>
          (case have of
             None \<Rightarrow> True
           | Some h \<Rightarrow> major h = major w \<and> minor h \<ge> minor w \<and> patch h \<ge> patch w))"

text \<open>
  Lines 882-912. The loop answers whether some existing entry has the same version;
  \<open>registrationType\<close> is only logged. An absent key is first set to \<open>[]\<close>.
\<close>

fun registerLoop ::
  "(string \<Rightarrow> semver option) \<Rightarrow> 'a registration list \<Rightarrow> 'a registration \<Rightarrow> versionError + bool" where
  "registerLoop parse [] item = Inr False"
| "registerLoop parse (existing # rest) item =
     (case sameVersion parse (version existing) (version item) of
        Inl e \<Rightarrow> Inl e
      | Inr same \<Rightarrow> if same then Inr True else registerLoop parse rest item)"

definition register ::
  "(string \<Rightarrow> semver option) \<Rightarrow> (string \<rightharpoonup> 'a registration list) \<Rightarrow> string \<Rightarrow> string \<Rightarrow>
   'a registration \<Rightarrow> versionError + (bool \<times> (string \<rightharpoonup> 'a registration list))" where
  "register parse source registrationType key item =
     (case source key of
        Some items \<Rightarrow>
          (case registerLoop parse items item of
             Inl e \<Rightarrow> Inl e
           | Inr found \<Rightarrow>
               if found then Inr (False, source)
               else Inr (True, source(key \<mapsto> items @ [item])))
      | None \<Rightarrow> Inr (True, source(key \<mapsto> [item])))"

text \<open>
  Lines 917-937. \<open>version ? new semver.SemVer(version) : undefined\<close> takes the empty
  string for no version. Entries are objects, so \<open>!bestMatch\<close> holds exactly while
  nothing has been chosen.
\<close>

fun getRegistrationLoop ::
  "(string \<Rightarrow> semver option) \<Rightarrow> semver option \<Rightarrow> 'a registration list \<Rightarrow>
   'a registration option \<Rightarrow> semver option \<Rightarrow> versionError + 'a registration option" where
  "getRegistrationLoop parse ver [] bestMatch bestMatchVersion = Inr bestMatch"
| "getRegistrationLoop parse ver (existing # rest) bestMatch bestMatchVersion =
     (case (case version existing of
              None \<Rightarrow> Inr None
            | Some s \<Rightarrow> (case newSemVer parse s of Inl e \<Rightarrow> Inl e | Inr v \<Rightarrow> Inr (Some v))) of
        Inl e \<Rightarrow> Inl e
      | Inr existingVersion \<Rightarrow>
          if \<not> checkVersion ver existingVersion
          then getRegistrationLoop parse ver rest bestMatch bestMatchVersion
          else if bestMatch = None \<or>
                  (case existingVersion of
                     None \<Rightarrow> False
                   | Some ev \<Rightarrow>
                       (case bestMatchVersion of None \<Rightarrow> False | Some bv \<Rightarrow> semver_gt ev bv))
          then getRegistrationLoop parse ver rest (Some existing) existingVersion
          else getRegistrationLoop parse ver rest bestMatch bestMatchVersion)"

definition getRegistration ::
  "(string \<Rightarrow> semver option) \<Rightarrow> (string \<rightharpoonup> 'a registration list) \<Rightarrow> string \<Rightarrow>
   string option \<Rightarrow> versionError + 'a registration option" where
  "getRegistration parse source key version' =
     (case (case version' of
              None \<Rightarrow> Inr None
            | Some s \<Rightarrow>
                if s = [] then Inr None
                else (case newSemVer parse s of Inl e \<Rightarrow> Inl e | Inr v \<Rightarrow> Inr (Some v))) of
        Inl e \<Rightarrow> Inl e
      | Inr ver \<Rightarrow>
          getRegistrationLoop parse ver (case source key of None \<Rightarrow> [] | Some items \<Rightarrow> items)
            None None)"

text \<open>The parsed version of an entry, when it has one that parses.\<close>

definition parsedVersion :: "(string \<Rightarrow> semver option) \<Rightarrow> 'a registration \<Rightarrow> semver option" where
  "parsedVersion parse e = (case version e of None \<Rightarrow> None | Some s \<Rightarrow> parse s)"

text \<open>
  Vocabulary for the statements: a version string that parses (or is absent), a requested
  version that parses (or is absent or empty), the version \<open>getRegistration\<close> looks
  for, and the entries that pass \<open>checkVersion\<close>, in table order.
\<close>

definition validVersion :: "(string \<Rightarrow> semver option) \<Rightarrow> string option \<Rightarrow> bool" where
  "validVersion parse v = (case v of None \<Rightarrow> True | Some s \<Rightarrow> parse s \<noteq> None)"

definition validRequest :: "(string \<Rightarrow> semver option) \<Rightarrow> string option \<Rightarrow> bool" where
  "validRequest parse v = (case v of None \<Rightarrow> True | Some s \<Rightarrow> s = [] \<or> parse s \<noteq> None)"

definition wanted :: "(string \<Rightarrow> semver option) \<Rightarrow> string option \<Rightarrow> semver option" where
  "wanted parse v = (case v of None \<Rightarrow> None | Some s \<Rightarrow> if s = [] then None else parse s)"

definition compatible ::
  "(string \<Rightarrow> semver option) \<Rightarrow> string option \<Rightarrow> 'a registration list \<Rightarrow> 'a registration list" where
  "compatible parse v items =
     filter (\<lambda>e. checkVersion (wanted parse v) (parsedVersion parse e)) items"

text \<open>All versions under a key parse, and the entries under a key.\<close>

definition validEntries :: "(string \<Rightarrow> semver option) \<Rightarrow> 'a registration list \<Rightarrow> bool" where
  "validEntries parse items = list_all (\<lambda>e. validVersion parse (version e)) items"

definition registered :: "(string \<rightharpoonup> 'a registration list) \<Rightarrow> string \<Rightarrow> 'a registration list" where
  "registered source key = (case source key of None \<Rightarrow> [] | Some items \<Rightarrow> items)"

text \<open>A release version \<open>a.b.c\<close>, and a parser that knows the strings of the examples.\<close>

definition release :: "nat \<Rightarrow> nat \<Rightarrow> nat \<Rightarrow> semver" where
  "release a b c = \<lparr>major = a, minor = b, patch = c, prerelease = [], build = []\<rparr>"

definition exampleParse :: "string \<Rightarrow> semver option" where
  "exampleParse = map_of
     [(''1.0.0'', release 1 0 0), (''1.2.0'', release 1 2 0), (''1.2.3'', release 1 2 3),
      (''1.5.0'', release 1 5 0), (''2.0.0'', release 2 0 0)]"

text \<open>
  The lookup as the specification words it: among the compatible entries the greatest
  version, an entry without a version ranking below every entry with one, the first of
  equals winning.
\<close>

definition ranksAbove :: "semver option \<Rightarrow> semver option \<Rightarrow> bool" where
  "ranksAbove x best =
     (case x of
        None \<Rightarrow> False
      | Some u \<Rightarrow> (case best of None \<Rightarrow> True | Some v \<Rightarrow> semver_gt u v))"

fun specGreatest ::
  "(string \<Rightarrow> semver option) \<Rightarrow> 'a registration \<Rightarrow> 'a registration list \<Rightarrow> 'a registration" where
  "specGreatest parse best [] = best"
| "specGreatest parse best (x # xs) =
     specGreatest parse
       (if ranksAbove (parsedVersion parse x) (parsedVersion parse best) then x else best) xs"

definition specLookup ::
  "(string \<Rightarrow> semver option) \<Rightarrow> (string \<rightharpoonup> 'a registration list) \<Rightarrow> string \<Rightarrow>
   string option \<Rightarrow> 'a registration option" where
  "specLookup parse source key version' =
     (case compatible parse version' (registered source key) of
        [] \<Rightarrow> None
      | e # es \<Rightarrow> Some (specGreatest parse e es))"

text \<open>The comparison read from the other side, and what makes a comparison an order.\<close>

fun flipCmp :: "cmp \<Rightarrow> cmp" where
  "flipCmp Less = Greater" | "flipCmp Same = Same" | "flipCmp Greater = Less"

definition totalPreorder :: "('a \<Rightarrow> 'a \<Rightarrow> cmp) \<Rightarrow> bool" where
  "totalPreorder f \<longleftrightarrow>
     (\<forall>a b. f b a = flipCmp (f a b)) \<and>
     (\<forall>a b c. f a b \<noteq> Greater \<longrightarrow> f b c \<noteq> Greater \<longrightarrow> f a c \<noteq> Greater)"

section \<open>The reverse marshaler (rpc.ts, lines 217-227 and 703-852)\<close>

subsection \<open>JavaScript helpers\<close>

text \<open>
  \<open>s.split(sep)\<close> for a string separator: the pieces between the leftmost occurrences
  of \<open>sep\<close>; always at least one piece.
\<close>

function splitFrom :: "string \<Rightarrow> string \<Rightarrow> string \<Rightarrow> string list" where
  "splitFrom sep acc [] = [rev acc]"
| "splitFrom sep acc (c # cs) =
     (if take (length sep) (c # cs) = sep
      then rev acc # splitFrom sep [] (drop (length sep - 1) cs)
      else splitFrom sep (c # acc) cs)"
  by pat_completeness auto
termination
  by (relation "measure (\<lambda>(sep, acc, s). length s)") auto

definition jsSplit :: "string \<Rightarrow> string \<Rightarrow> string list" where
  "jsSplit sep s = (if sep = [] then map (\<lambda>c. [c]) s else splitFrom sep [] s)"


text \<open>\<open>xs[i]\<close>, which is \<open>undefined\<close> out of range.\<close>

definition nthOr :: "'a list \<Rightarrow> nat \<Rightarrow> 'a option" where
  "nthOr xs i = (if i < length xs then Some (xs ! i) else None)"

text \<open>The decimal index keys of an array, as \<open>Object.keys\<close> lists them.\<close>

fun showNat :: "nat \<Rightarrow> string" where
  "showNat n = (if n < 10 then [char_of (48 + n)] else showNat (n div 10) @ [char_of (48 + n mod 10)])"

declare showNat.simps [simp del]


text \<open>The size of a protocol value, by which the recursion below ends.\<close>

fun wsz :: "wire \<Rightarrow> nat" where
  "wsz (WArr xs) = 1 + sum_list (map (\<lambda>x. 1 + wsz x) xs)"
| "wsz (WObj kvs) = 1 + sum_list (map (\<lambda>p. 1 + wsz (snd p)) kvs)"
| "wsz _ = 0"


subsection \<open>deserializeProperty\<close>

text \<open>
  The errors \<open>deserializeProperty\<close> can end in: its own four \<open>throw\<close> statements, an
  unknown signature, the \<open>TypeError\<close> of calling \<open>split\<close> on something that has none (or
  of handing \<open>semver\<close> a version that is not a string), and an invalid version string.
\<close>

datatype deserializeError =
    UnexpectedUndefined
  | InvalidAsset
  | InvalidArchive
  | ExpectedAssetOrArchive
  | UnrecognizedSignature wire
  | TypeError
  | BadVersion versionError

text \<open>
  What the function reads from the process: \<open>isDryRun()\<close>, the \<open>semver\<close> parser, and the
  two registries of \<open>./state\<close>. The body of a registry entry is a handle that names its
  package or module.
\<close>

record runtime =
  isDryRun :: bool
  parseVersion :: "string \<Rightarrow> semver option"
  resourcePackages :: "string \<rightharpoonup> nat registration list"
  resourceModules :: "string \<rightharpoonup> nat registration list"

text \<open>
  \<open>getRegistration\<close> called with \<open>prop["packageVersion"]\<close>, which may be any protocol
  value: a falsy one is no version, a string is parsed, anything else makes the
  \<open>SemVer\<close> constructor throw.
\<close>

definition lookupVersioned ::
  "(string \<Rightarrow> semver option) \<Rightarrow> (string \<rightharpoonup> nat registration list) \<Rightarrow> string \<Rightarrow> wire \<Rightarrow>
   deserializeError + nat registration option" where
  "lookupVersioned parse table key version' =
     (case (case version' of
              WStr s \<Rightarrow> Inr (Some s)
            | v \<Rightarrow> if truthy v then Inl TypeError else Inr None) of
        Inl e \<Rightarrow> Inl e
      | Inr v \<Rightarrow>
          (case getRegistration parse table key v of
             Inl e \<Rightarrow> Inl (BadVersion e)
           | Inr r \<Rightarrow> Inr r))"

text \<open>Lines 967-970 and 981-983, 1005-1009.\<close>

definition moduleKey :: "string \<Rightarrow> string \<Rightarrow> string" where
  "moduleKey pkg mod' = pkg @ '':'' @ mod'"

definition getResourcePackage :: "runtime \<Rightarrow> string \<Rightarrow> wire \<Rightarrow> deserializeError + nat registration option" where
  "getResourcePackage rt pkg version' =
     lookupVersioned (parseVersion rt) (resourcePackages rt) pkg version'"

definition getResourceModule ::
  "runtime \<Rightarrow> string \<Rightarrow> string \<Rightarrow> wire \<Rightarrow> deserializeError + nat registration option" where
  "getResourceModule rt pkg mod' version' =
     lookupVersioned (parseVersion rt) (resourceModules rt) (moduleKey pkg mod') version'"

text \<open>
  Modelled from the spec: \<open>asset.Asset.isInstance\<close> and \<open>asset.Archive.isInstance\<close> of
  \<open>../asset\<close>, which is not among the sources. The specification has each member of
  \<open>assets\<close> deserialized "as either asset or archive (reject others)"; the test holds
  of exactly the values built by the six asset and archive constructors.
\<close>

fun isAssetOrArchive :: "dval \<Rightarrow> bool" where
  "isAssetOrArchive (DFileAsset p) = True"
| "isAssetOrArchive (DStringAsset p) = True"
| "isAssetOrArchive (DRemoteAsset p) = True"
| "isAssetOrArchive (DAssetArchive m) = True"
| "isAssetOrArchive (DFileArchive p) = True"
| "isAssetOrArchive (DRemoteArchive p) = True"
| "isAssetOrArchive _ = False"

text \<open>What is read out of a value is smaller than the value.\<close>

lemma wsz_member: "(k, v) \<in> set kvs \<Longrightarrow> wsz v < sum_list (map (\<lambda>p. 1 + wsz (snd p)) kvs)"
  by (induction kvs) auto

lemma wsz_getProp: "wsz (getProp kvs k) < wsz (WObj kvs)"
proof (cases "map_of kvs k")
  case None
  then show ?thesis by (simp add: getProp_def)
next
  case (Some v)
  then have "(k, v) \<in> set kvs" by (rule map_of_SomeD)
  from wsz_member [OF this] Some show ?thesis by (simp add: getProp_def)
qed

lemma wsz_zip: "length ks = length xs \<Longrightarrow>
  sum_list (map (\<lambda>p. 1 + wsz (snd p)) (zip ks xs)) = sum_list (map (\<lambda>x. 1 + wsz x) xs)"
  by (induction ks xs rule: list_induct2) auto

text \<open>
  Lines 703-852. The three loops are functions of their own: over the elements of an
  array (with the accumulators \<open>hadSecret\<close> and \<open>elems\<close>), over
  \<open>Object.keys(prop["assets"])\<close> and over \<open>Object.keys(prop)\<close>, each reading the member
  by its key. The keys of \<open>prop["assets"]\<close> are the member names of an object and the
  indices of an array; a non-empty string has the key \<open>0\<close>, whose member is a
  one-character string and so no asset, which ends in the error at once; a number or
  \<open>true\<close> has no keys. Constructors found in a registry are taken to return.
\<close>

function deserializeProperty :: "runtime \<Rightarrow> bool \<Rightarrow> wire \<Rightarrow> deserializeError + dval"
  and deserializeElements ::
    "runtime \<Rightarrow> bool \<Rightarrow> wire list \<Rightarrow> bool \<Rightarrow> dval list \<Rightarrow> deserializeError + (bool \<times> dval list)"
  and deserializeAssets ::
    "runtime \<Rightarrow> bool \<Rightarrow> (string \<times> wire) list \<Rightarrow> string list \<Rightarrow> (string \<times> dval) list \<Rightarrow>
     deserializeError + (string \<times> dval) list"
  and deserializeMembers ::
    "runtime \<Rightarrow> bool \<Rightarrow> (string \<times> wire) list \<Rightarrow> string list \<Rightarrow> bool \<Rightarrow> (string \<times> dval) list \<Rightarrow>
     deserializeError + (bool \<times> (string \<times> dval) list)"
  where
  "deserializeProperty rt keepUnknowns WUndefined = Inl UnexpectedUndefined"
| "deserializeProperty rt keepUnknowns (WStr s) =
     (if s = unknownValue
      then Inr (if isDryRun rt \<or> keepUnknowns then DUnknown else DUndefined)
      else Inr (DStr s))"
| "deserializeProperty rt keepUnknowns WNull = Inr DNull"
| "deserializeProperty rt keepUnknowns (WBool b) = Inr (DBool b)"
| "deserializeProperty rt keepUnknowns (WNum n) = Inr (DNum n)"
| "deserializeProperty rt keepUnknowns (WArr xs) =
     (case deserializeElements rt keepUnknowns xs False [] of
        Inl e \<Rightarrow> Inl e
      | Inr (hadSecret, elems) \<Rightarrow>
          Inr (if hadSecret then secretEnvelope (DArr elems) else DArr elems))"
| "deserializeProperty rt keepUnknowns (WObj kvs) =
     (let sig = getProp kvs specialSigKey in
      if truthy sig then
        if sig = WStr specialAssetSig then
          if truthy (getProp kvs ''path'') then Inr (DFileAsset (getProp kvs ''path''))
          else if truthy (getProp kvs ''text'') then Inr (DStringAsset (getProp kvs ''text''))
          else if truthy (getProp kvs ''uri'') then Inr (DRemoteAsset (getProp kvs ''uri''))
          else Inl InvalidAsset
        else if sig = WStr specialArchiveSig then
          if truthy (getProp kvs ''assets'') then
            (case getProp kvs ''assets'' of
               WObj members \<Rightarrow>
                 (case deserializeAssets rt keepUnknowns members (map fst members) [] of
                    Inl e \<Rightarrow> Inl e
                  | Inr assets \<Rightarrow> Inr (DAssetArchive assets))
             | WArr xs \<Rightarrow>
                 (case deserializeAssets rt keepUnknowns
                         (zip (map showNat [0..<length xs]) xs) (map showNat [0..<length xs]) [] of
                    Inl e \<Rightarrow> Inl e
                  | Inr assets \<Rightarrow> Inr (DAssetArchive assets))
             | WStr s \<Rightarrow> Inl ExpectedAssetOrArchive
             | _ \<Rightarrow> Inr (DAssetArchive []))
          else if truthy (getProp kvs ''path'') then Inr (DFileArchive (getProp kvs ''path''))
          else if truthy (getProp kvs ''uri'') then Inr (DRemoteArchive (getProp kvs ''uri''))
          else Inl InvalidArchive
        else if sig = WStr specialSecretSig then
          (case deserializeProperty rt keepUnknowns (getProp kvs ''value'') of
             Inl e \<Rightarrow> Inl e
           | Inr v \<Rightarrow> Inr (secretEnvelope v))
        else if sig = WStr specialResourceSig then
          (case getProp kvs ''urn'' of
             WStr urn \<Rightarrow>
               (case nthOr (jsSplit ''::'' urn) 2 of
                  None \<Rightarrow> Inl TypeError
                | Some qualifiedType \<Rightarrow>
                    (let version' = getProp kvs ''packageVersion'';
                         urnName = nthOr (jsSplit ''::'' urn) 3;
                         type = last (jsSplit ''$'' qualifiedType);
                         typeParts = jsSplit '':'' type;
                         pkgName = hd typeParts;
                         modName = (if length typeParts > 1 then typeParts ! 1 else []);
                         typName = (if length typeParts > 2 then typeParts ! 2 else []);
                         isProvider = (pkgName = ''pulumi'' \<and> modName = ''providers'')
                     in
                       (case (if isProvider then getResourcePackage rt typName version'
                              else getResourceModule rt pkgName modName version') of
                          Inl e \<Rightarrow> Inl e
                        | Inr (Some found) \<Rightarrow>
                            Inr (if isProvider then DProvider (body found) urnName type urn
                                 else DResource (body found) urnName type urn)
                        | Inr None \<Rightarrow>
                            if truthy (getProp kvs ''id'')
                            then deserializeProperty rt keepUnknowns
                                   (if getProp kvs ''id'' = WStr [] then WStr unknownValue
                                    else getProp kvs ''id'')
                            else Inr (DStr urn))))
           | _ \<Rightarrow> Inl TypeError)
        else if sig = WStr specialOutputValueSig then
          (case (if getProp kvs ''value'' \<noteq> WUndefined
                 then deserializeProperty rt keepUnknowns (getProp kvs ''value'')
                 else Inr DUndefined) of
             Inl e \<Rightarrow> Inl e
           | Inr v \<Rightarrow>
               Inr (DOutput (case getProp kvs ''dependencies'' of WArr ds \<Rightarrow> ds | _ \<Rightarrow> [])
                      v (getProp kvs ''value'' \<noteq> WUndefined) (getProp kvs ''secret'' = WBool True)))
        else Inl (UnrecognizedSignature sig)
      else
        (case deserializeMembers rt keepUnknowns kvs (map fst kvs) False [] of
           Inl e \<Rightarrow> Inl e
         | Inr (hadSecrets, obj) \<Rightarrow>
             Inr (if hadSecrets then secretEnvelope (DObj obj) else DObj obj)))"
| "deserializeElements rt keepUnknowns [] hadSecret elems = Inr (hadSecret, elems)"
| "deserializeElements rt keepUnknowns (e # es) hadSecret elems =
     (case deserializeProperty rt keepUnknowns e of
        Inl err \<Rightarrow> Inl err
      | Inr prop \<Rightarrow>
          deserializeElements rt keepUnknowns es (hadSecret \<or> isRpcSecret prop)
            (elems @ [unwrapRpcSecret prop]))"
| "deserializeAssets rt keepUnknowns members [] assets = Inr assets"
| "deserializeAssets rt keepUnknowns members (name # names) assets =
     (case deserializeProperty rt keepUnknowns (getProp members name) of
        Inl err \<Rightarrow> Inl err
      | Inr a \<Rightarrow>
          if \<not> isAssetOrArchive a then Inl ExpectedAssetOrArchive
          else deserializeAssets rt keepUnknowns members names (setProp name a assets))"
| "deserializeMembers rt keepUnknowns prop [] hadSecrets obj = Inr (hadSecrets, obj)"
| "deserializeMembers rt keepUnknowns prop (k # ks) hadSecrets obj =
     (case deserializeProperty rt keepUnknowns (getProp prop k) of
        Inl err \<Rightarrow> Inl err
      | Inr o' \<Rightarrow>
          deserializeMembers rt keepUnknowns prop ks (hadSecrets \<or> isRpcSecret o')
            (setProp k (unwrapRpcSecret o') obj))"
  by pat_completeness auto

termination
proof (relation "measures
   [\<lambda>x. case x of
        Inl (Inl (rt, keep, w)) \<Rightarrow> 2 * wsz w + 1
      | Inl (Inr (rt, keep, xs, h, acc)) \<Rightarrow> 2 * sum_list (map (\<lambda>x. 1 + wsz x) xs)
      | Inr (Inl (rt, keep, kvs, ks, acc)) \<Rightarrow> 2 * wsz (WObj kvs)
      | Inr (Inr (rt, keep, kvs, ks, h, acc)) \<Rightarrow> 2 * wsz (WObj kvs),
    \<lambda>x. case x of
        Inl (Inl (rt, keep, w)) \<Rightarrow> 0
      | Inl (Inr (rt, keep, xs, h, acc)) \<Rightarrow> 0
      | Inr (Inl (rt, keep, kvs, ks, acc)) \<Rightarrow> length ks
      | Inr (Inr (rt, keep, kvs, ks, h, acc)) \<Rightarrow> length ks]", goal_cases)
  case 1
  then show ?case by simp
next
  case (2 rt keepUnknowns xs)
  then show ?case by simp
next
  case (3 rt keepUnknowns kvs sig xs)
  then show ?case
    using wsz_getProp [of kvs "''assets''"] wsz_zip [of "map showNat [0..<length xs]" xs]
    by simp
next
  case (4 rt keepUnknowns kvs sig members)
  then show ?case
    using wsz_getProp [of kvs "''assets''"] by simp
next
  case (5 rt keepUnknowns kvs sig)
  then show ?case
    using wsz_getProp [of kvs "''value''"] by simp
next
  case (6 rt keepUnknowns kvs sig)
  then show ?case
    using wsz_getProp [of kvs "''id''"] by (auto split: if_splits)
next
  case (7 rt keepUnknowns kvs sig)
  then show ?case
    using wsz_getProp [of kvs "''value''"] by simp
next
  case (8 rt keepUnknowns kvs sig)
  then show ?case by simp
next
  case (9 rt keepUnknowns e es hadSecret elems)
  then show ?case by simp
next
  case (10 rt keepUnknowns e es hadSecret elems)
  then show ?case by simp
next
  case (11 rt keepUnknowns members name names assets)
  then show ?case
    using wsz_getProp [of members name] by simp
next
  case (12 rt keepUnknowns members name names assets)
  then show ?case by simp
next
  case (13 rt keepUnknowns pr k ks hadSecrets obj)
  then show ?case
    using wsz_getProp [of pr k] by simp
next
  case (14 rt keepUnknowns pr k ks hadSecrets obj)
  then show ?case by simp
qed



subsection \<open>Vocabulary for the statements about deserialization\<close>

text \<open>The value a protocol value deserializes to, where it does.\<close>

definition deserialized :: "runtime \<Rightarrow> bool \<Rightarrow> wire \<Rightarrow> dval" where
  "deserialized rt keepUnknowns w =
     (case deserializeProperty rt keepUnknowns w of Inl e \<Rightarrow> DUndefined | Inr v \<Rightarrow> v)"

text \<open>
  No secret envelope inside an array or a plain object, at any depth. Asset, resource and
  \<open>Output\<close> objects are not looked into.
\<close>

fun secretFree :: "dval \<Rightarrow> bool" where
  "secretFree (DArr xs) = list_all secretFree xs"
| "secretFree (DObj kvs) = (\<not> isRpcSecret (DObj kvs) \<and> list_all (\<lambda>p. secretFree (snd p)) kvs)"
| "secretFree _ = True"

text \<open>
  A protocol value in which no secret envelope has a payload that itself deserializes to
  a secret envelope.
\<close>

fun singlyWrapped :: "runtime \<Rightarrow> bool \<Rightarrow> wire \<Rightarrow> bool" where
  "singlyWrapped rt keepUnknowns (WArr xs) = list_all (singlyWrapped rt keepUnknowns) xs"
| "singlyWrapped rt keepUnknowns (WObj kvs) =
     (list_all (\<lambda>p. singlyWrapped rt keepUnknowns (snd p)) kvs
      \<and> (getProp kvs specialSigKey = WStr specialSecretSig \<longrightarrow>
           \<not> isRpcSecret (deserialized rt keepUnknowns (getProp kvs ''value''))))"
| "singlyWrapped rt keepUnknowns _ = True"


text \<open>A process outside a preview with nothing registered, for the examples.\<close>

definition emptyRuntime :: runtime where
  "emptyRuntime = \<lparr>isDryRun = False, parseVersion = exampleParse,
                    resourcePackages = Map.empty, resourceModules = Map.empty\<rparr>"

section \<open>The forward marshaler (rpc.ts, lines 371-626)\<close>

subsection \<open>Inputs, the store and awaited values\<close>

text \<open>
  A resource is named by a number; what the marshaler reads of it (its \<open>urn\<close> and \<open>id\<close>
  outputs) is in the store below, so a resource may refer to itself through its own
  properties.
\<close>

type_synonym rid = nat

text \<open>
  What an \<open>await\<close> ends in: the value, a rejection, or no end at all. An \<open>async\<close>
  function returns a promise that settles the same way.
\<close>

datatype 'a async = Resolved 'a | Failed string | NeverSettles

text \<open>
  An \<open>Output\<close>, as far as the marshaler awaits it: \<open>getAllResources(prop)\<close>,
  \<open>prop.isKnown\<close>, \<open>prop.isSecret\<close> (compared with \<open>=== true\<close>; \<open>None\<close> is any value
  that is not a boolean) and \<open>prop.promise()\<close>.
\<close>

datatype 'a lazy =
  Lazy (allResources: "rid list async") (isKnownOf: "bool async")
       (isSecretOf: "bool option async") (promiseOf: "'a async")

text \<open>
  The input values, one constructor for each test of \<open>serializeProperty\<close>, in its order;
  an asset, an archive and a plain object are the list of their own enumerable members.
\<close>

datatype input =
    IUndefined
  | INull
  | IBool bool
  | INum int
  | IStr string
  | IAsset "(string \<times> input) list"
  | IArchive "(string \<times> input) list"
  | IPromise "input async"
  | IOutput "input lazy"
  | IUnknown
  | ICustomResource rid
  | IComponentResource rid
  | IArr "input list"
  | IObj "(string \<times> input) list"

text \<open>
  The process-wide store with the three feature flags of the monitor, and the resources:
  the \<open>urn\<close> and \<open>id\<close> outputs of each (outputs of strings, \<open>None\<close> for
  \<open>undefined\<close>), its other own properties (which may hold the resource itself) and
  \<open>getAllTransitivelyReferencedResourceURNs\<close> of \<open>./dependsOn\<close>, a parameter.
\<close>

record store =
  supportsSecrets :: bool
  supportsResourceReferences :: bool
  supportsOutputValues :: bool
  urnOf :: "rid \<Rightarrow> string option lazy"
  idOf :: "rid \<Rightarrow> string option lazy"
  propertiesOf :: "rid \<Rightarrow> (string \<times> input) list"
  transitiveURNs :: "rid list \<Rightarrow> string list async"

text \<open>
  \<open>SerializationOptions\<close> (lines 143-158); an absent option is false, and
  \<open>{ keepOutputValues: false }\<close> is \<open>noOutputValues\<close>.
\<close>

record serializationOptions =
  keepOutputValues :: bool
  excludeResourceReferencesFromDependencies :: bool

definition noOutputValues :: serializationOptions where
  "noOutputValues = \<lparr>keepOutputValues = False, excludeResourceReferencesFromDependencies = False\<rparr>"

text \<open>The \<open>urn\<close> or \<open>id\<close> output of a resource as an input value.\<close>

definition stringInput :: "string option \<Rightarrow> input" where
  "stringInput v = (case v of None \<Rightarrow> IUndefined | Some s \<Rightarrow> IStr s)"

definition outputInput :: "string option lazy \<Rightarrow> input" where
  "outputInput l = IOutput (map_lazy stringInput l)"

text \<open>\<open>innerProp[k]\<close>.\<close>

definition getInput :: "(string \<times> input) list \<Rightarrow> string \<Rightarrow> input" where
  "getInput kvs k = (case map_of kvs k of None \<Rightarrow> IUndefined | Some v \<Rightarrow> v)"

text \<open>
  A \<open>Set<Resource>\<close> in insertion order, \<open>add\<close>, adding every element of another set,
  and the elements of a set that may be \<open>undefined\<close>.
\<close>

definition addResource :: "rid \<Rightarrow> rid list \<Rightarrow> rid list" where
  "addResource r s = (if r \<in> set s then s else s @ [r])"

definition addAll :: "rid list \<Rightarrow> rid list \<Rightarrow> rid list" where
  "addAll rs s = foldl (\<lambda>acc r. addResource r acc) s rs"

definition elements :: "rid list option \<Rightarrow> rid list" where
  "elements s = (case s of None \<Rightarrow> [] | Some d \<Rightarrow> d)"

text \<open>Lines 372-378.\<close>

definition serializeSecretValue :: "wire \<Rightarrow> wire" where
  "serializeSecretValue v =
     WObj [(specialSigKey, WStr specialSecretSig), (''value'', if v = WUndefined then WNull else v)]"

text \<open>The size of an input, by which the recursion below ends.\<close>

fun isz :: "input \<Rightarrow> nat" where
  "isz (IAsset kvs) = 1 + sum_list (map (\<lambda>p. 1 + isz (snd p)) kvs)"
| "isz (IArchive kvs) = 1 + sum_list (map (\<lambda>p. 1 + isz (snd p)) kvs)"
| "isz (IPromise (Resolved v)) = 1 + isz v"
| "isz (IPromise _) = 1"
| "isz (IOutput (Lazy rs k s (Resolved v))) = 2 + isz v"
| "isz (IOutput _) = 2"
| "isz (ICustomResource r) = 3"
| "isz (IComponentResource r) = 3"
| "isz (IArr xs) = 1 + sum_list (map (\<lambda>x. 1 + isz x) xs)"
| "isz (IObj kvs) = 1 + sum_list (map (\<lambda>p. 1 + isz (snd p)) kvs)"
| "isz _ = 0"


lemma isz_getInput: "isz (getInput kvs k) < 1 + sum_list (map (\<lambda>p. 1 + isz (snd p)) kvs)"
proof (cases "map_of kvs k")
  case None
  then show ?thesis by (simp add: getInput_def)
next
  case (Some v)
  then have "(k, v) \<in> set kvs" by (rule map_of_SomeD)
  then have "isz v < sum_list (map (\<lambda>p. 1 + isz (snd p)) kvs)"
    by (induction kvs) auto
  with Some show ?thesis by (simp add: getInput_def)
qed

lemma isz_outputInput: "isz (outputInput l) = 2"
proof (cases l)
  case (Lazy rs k s p)
  then show ?thesis
    by (cases p) (auto simp: outputInput_def stringInput_def split: option.splits)
qed

lemma isz_promise: "isz (IPromise (promiseOf l)) < isz (IOutput l)"
  by (cases l; cases "promiseOf l") auto

text \<open>\<open>opts?.keepOutputValues && getStore().supportsOutputValues\<close>.\<close>

definition keeping :: "store \<Rightarrow> serializationOptions \<Rightarrow> bool" where
  "keeping st opts = (keepOutputValues opts \<and> supportsOutputValues st)"

lemma keeping_noOutputValues [simp]: "\<not> keeping st noOutputValues"
  by (simp add: keeping_def noOutputValues_def)

subsection \<open>serializeProperty\<close>

text \<open>
  Lines 385-626. \<open>dependentResources\<close> is the caller's set, or \<open>None\<close> for
  \<open>undefined\<close>; the result carries the wire value and that set as the call leaves it.
  Where the source assigns \<open>dependentResources = undefined\<close>, the inner calls get
  \<open>None\<close> and the caller's set is handed back unchanged. A call that ends in a
  rejection or never ends hands back no set. The context label \<open>ctx\<close> and the debug
  logging are not modelled. The loops are functions of their own:
  \<open>serializeUrns\<close> (lines 472-476), \<open>serializeElements\<close> (lines 597-606) and
  \<open>serializeAllKeys\<close> (lines 611-625).
\<close>

function serializeProperty ::
    "store \<Rightarrow> input \<Rightarrow> rid list option \<Rightarrow> serializationOptions \<Rightarrow> (wire \<times> rid list option) async"
  and serializeUrns :: "store \<Rightarrow> rid list \<Rightarrow> rid list \<Rightarrow> rid list async"
  and serializeElements ::
    "store \<Rightarrow> input list \<Rightarrow> wire list \<Rightarrow> rid list option \<Rightarrow> serializationOptions \<Rightarrow>
     (wire \<times> rid list option) async"
  and serializeAllKeys ::
    "store \<Rightarrow> (string \<times> input) list \<Rightarrow> string list \<Rightarrow> (string \<times> wire) list \<Rightarrow>
     rid list option \<Rightarrow> serializationOptions \<Rightarrow> (wire \<times> rid list option) async"
  where
  "serializeProperty st IUndefined dependentResources opts = Resolved (WUndefined, dependentResources)"
| "serializeProperty st INull dependentResources opts = Resolved (WNull, dependentResources)"
| "serializeProperty st (IBool b) dependentResources opts = Resolved (WBool b, dependentResources)"
| "serializeProperty st (INum n) dependentResources opts = Resolved (WNum n, dependentResources)"
| "serializeProperty st (IStr s) dependentResources opts = Resolved (WStr s, dependentResources)"
| "serializeProperty st (IAsset kvs) dependentResources opts =
     serializeAllKeys st kvs (map fst kvs) [(specialSigKey, WStr specialAssetSig)]
       dependentResources noOutputValues"
| "serializeProperty st (IArchive kvs) dependentResources opts =
     serializeAllKeys st kvs (map fst kvs) [(specialSigKey, WStr specialArchiveSig)]
       dependentResources noOutputValues"
| "serializeProperty st (IPromise p) dependentResources opts =
     (case p of
        Resolved v \<Rightarrow> serializeProperty st v dependentResources opts
      | Failed e \<Rightarrow> Failed e
      | NeverSettles \<Rightarrow> NeverSettles)"
| "serializeProperty st (IOutput l) dependentResources opts =
     (case allResources l of
        Failed e \<Rightarrow> Failed e
      | NeverSettles \<Rightarrow> NeverSettles
      | Resolved propResources \<Rightarrow>
     (case isKnownOf l of
        Failed e \<Rightarrow> Failed e
      | NeverSettles \<Rightarrow> NeverSettles
      | Resolved isKnown \<Rightarrow>
     (case isSecretOf l of
        Failed e \<Rightarrow> Failed e
      | NeverSettles \<Rightarrow> NeverSettles
      | Resolved secret \<Rightarrow>
     (case serializeProperty st (IPromise (promiseOf l)) (Some []) noOutputValues of
        Failed e \<Rightarrow> Failed e
      | NeverSettles \<Rightarrow> NeverSettles
      | Resolved (value, promiseDeps) \<Rightarrow>
          (let isSecret = (secret = Some True);
               propResources1 = addAll (elements promiseDeps) propResources;
               dependentResources1 =
                 map_option (addAll (elements promiseDeps) \<circ> addAll propResources) dependentResources
           in
             if keepOutputValues opts \<and> supportsOutputValues st then
               (case serializeUrns st propResources1 [] of
                  Failed e \<Rightarrow> Failed e
                | NeverSettles \<Rightarrow> NeverSettles
                | Resolved urnDeps \<Rightarrow>
                    (case transitiveURNs st (addAll urnDeps propResources1) of
                       Failed e \<Rightarrow> Failed e
                     | NeverSettles \<Rightarrow> NeverSettles
                     | Resolved dependencies \<Rightarrow>
                         Resolved
                           (WObj ([(specialSigKey, WStr specialOutputValueSig)]
                                  @ (if isKnown
                                     then [(''value'', if value = WUndefined then WNull else value)]
                                     else [])
                                  @ (if isSecret then [(''secret'', WBool isSecret)] else [])
                                  @ (if dependencies \<noteq> []
                                     then [(''dependencies'', WArr (map WStr dependencies))]
                                     else [])),
                            map_option (addAll urnDeps) dependentResources1)))
             else if \<not> isKnown then Resolved (WStr unknownValue, dependentResources1)
             else if isSecret \<and> supportsSecrets st
             then Resolved (serializeSecretValue value, dependentResources1)
             else Resolved (value, dependentResources1))))))"
| "serializeProperty st IUnknown dependentResources opts =
     Resolved (WStr unknownValue, dependentResources)"
| "serializeProperty st (ICustomResource r) dependentResources opts =
     (let excluded = (excludeResourceReferencesFromDependencies opts
                      \<and> supportsResourceReferences st);
          tracked = (if excluded then None else map_option (addResource r) dependentResources)
      in
        (case serializeProperty st (outputInput (idOf st r)) tracked noOutputValues of
           Failed e \<Rightarrow> Failed e
         | NeverSettles \<Rightarrow> NeverSettles
         | Resolved (id', tracked1) \<Rightarrow>
             if supportsResourceReferences st then
               (case serializeProperty st (outputInput (urnOf st r)) tracked1 noOutputValues of
                  Failed e \<Rightarrow> Failed e
                | NeverSettles \<Rightarrow> NeverSettles
                | Resolved (urn, tracked2) \<Rightarrow>
                    Resolved (WObj [(specialSigKey, WStr specialResourceSig),
                                    (''urn'', urn), (''id'', id')],
                              if excluded then dependentResources else tracked2))
             else Resolved (id', if excluded then dependentResources else tracked1)))"
| "serializeProperty st (IComponentResource r) dependentResources opts =
     (if supportsResourceReferences st then
        (let excluded = excludeResourceReferencesFromDependencies opts;
             tracked = (if excluded then None else dependentResources)
         in
           (case serializeProperty st (outputInput (urnOf st r)) tracked noOutputValues of
              Failed e \<Rightarrow> Failed e
            | NeverSettles \<Rightarrow> NeverSettles
            | Resolved (urn, tracked1) \<Rightarrow>
                Resolved (WObj [(specialSigKey, WStr specialResourceSig), (''urn'', urn)],
                          if excluded then dependentResources else tracked1)))
      else serializeProperty st (outputInput (urnOf st r)) dependentResources noOutputValues)"
| "serializeProperty st (IArr xs) dependentResources opts =
     serializeElements st xs [] dependentResources opts"
| "serializeProperty st (IObj kvs) dependentResources opts =
     serializeAllKeys st kvs (map fst kvs) [] dependentResources opts"
| "serializeUrns st [] urnDeps = Resolved urnDeps"
| "serializeUrns st (resource # rest) urnDeps =
     (case serializeProperty st (outputInput (urnOf st resource)) (Some urnDeps) noOutputValues of
        Failed e \<Rightarrow> Failed e
      | NeverSettles \<Rightarrow> NeverSettles
      | Resolved (urn, urnDeps1) \<Rightarrow> serializeUrns st rest (elements urnDeps1))"
| "serializeElements st [] result dependentResources opts =
     Resolved (WArr result, dependentResources)"
| "serializeElements st (x # xs) result dependentResources opts =
     (case serializeProperty st x dependentResources opts of
        Failed e \<Rightarrow> Failed e
      | NeverSettles \<Rightarrow> NeverSettles
      | Resolved (elem, dependentResources1) \<Rightarrow>
          serializeElements st xs (result @ [if elem = WUndefined then WNull else elem])
            dependentResources1 opts)"
| "serializeAllKeys st innerProp [] obj dependentResources innerOpts =
     Resolved (WObj obj, dependentResources)"
| "serializeAllKeys st innerProp (k # ks) obj dependentResources innerOpts =
     (case serializeProperty st (getInput innerProp k) dependentResources innerOpts of
        Failed e \<Rightarrow> Failed e
      | NeverSettles \<Rightarrow> NeverSettles
      | Resolved (v, dependentResources1) \<Rightarrow>
          serializeAllKeys st innerProp ks (if v \<noteq> WUndefined then setProp k v obj else obj)
            dependentResources1 innerOpts)"
  by pat_completeness auto

termination
proof (relation "measures
   [\<lambda>x. case x of
        Inl (Inl (st, p, deps, opts)) \<Rightarrow> if keeping st opts then 1 else 0
      | Inl (Inr (st, rs, acc)) \<Rightarrow> 0
      | Inr (Inl (st, xs, result, deps, opts)) \<Rightarrow> if keeping st opts then 1 else 0
      | Inr (Inr (st, kvs, ks, obj, deps, opts)) \<Rightarrow> if keeping st opts then 1 else 0,
    \<lambda>x. case x of
        Inl (Inl (st, p, deps, opts)) \<Rightarrow> 2 * isz p + 1
      | Inl (Inr (st, rs, acc)) \<Rightarrow> 6
      | Inr (Inl (st, xs, result, deps, opts)) \<Rightarrow> 2 * sum_list (map (\<lambda>x. 1 + isz x) xs)
      | Inr (Inr (st, kvs, ks, obj, deps, opts)) \<Rightarrow>
          2 * (1 + sum_list (map (\<lambda>p. 1 + isz (snd p)) kvs)),
    \<lambda>x. case x of
        Inl (Inl (st, p, deps, opts)) \<Rightarrow> 0
      | Inl (Inr (st, rs, acc)) \<Rightarrow> length rs
      | Inr (Inl (st, xs, result, deps, opts)) \<Rightarrow> 0
      | Inr (Inr (st, kvs, ks, obj, deps, opts)) \<Rightarrow> length ks]", goal_cases)
  case 1
  then show ?case by simp
next
  case (2 st kvs dependentResources opts)
  then show ?case by simp
next
  case (3 st kvs dependentResources opts)
  then show ?case by simp
next
  case (4 st p dependentResources opts v)
  then show ?case by simp
next
  case (5 st l dependentResources opts)
  then show ?case
    using isz_promise [of l] by simp
next
  case (6 st l dependentResources opts)
  then show ?case by (simp add: keeping_def)
next
  case (7 st r dependentResources opts)
  then show ?case by (simp add: isz_outputInput)
next
  case (8 st r dependentResources opts)
  then show ?case by (simp add: isz_outputInput)
next
  case (9 st r dependentResources opts)
  then show ?case by (simp add: isz_outputInput)
next
  case (10 st r dependentResources opts)
  then show ?case by (simp add: isz_outputInput)
next
  case (11 st xs dependentResources opts)
  then show ?case by simp
next
  case (12 st kvs dependentResources opts)
  then show ?case by simp
next
  case (13 st resource rest urnDeps)
  then show ?case by (simp add: isz_outputInput)
next
  case (14 st resource rest urnDeps)
  then show ?case by simp
next
  case (15 st x xs result dependentResources opts)
  then show ?case by simp
next
  case (16 st x xs result dependentResources opts)
  then show ?case by simp
next
  case (17 st innerProp k ks obj dependentResources innerOpts)
  then show ?case
    using isz_getInput [of innerProp k] by simp
next
  case (18 st innerProp k ks obj dependentResources innerOpts)
  then show ?case by simp
qed


subsection \<open>Vocabulary for the statements about serialization\<close>

text \<open>
  What an output of a string serializes to without output values: the unknown marker,
  a secret envelope, or the string.
\<close>

definition serializedString :: "store \<Rightarrow> bool \<Rightarrow> bool option \<Rightarrow> string option \<Rightarrow> wire" where
  "serializedString st isKnown secret v =
     (let w = (case v of None \<Rightarrow> WUndefined | Some s \<Rightarrow> WStr s) in
      if \<not> isKnown then WStr unknownValue
      else if secret = Some True \<and> supportsSecrets st then serializeSecretValue w
      else w)"

text \<open>
  The custom resources of a value that are reached through arrays, objects and resolved
  promises, and the values built from primitives, custom resources, arrays, objects
  (with distinct keys) and resolved promises only.
\<close>

fun customResources :: "input \<Rightarrow> rid set" where
  "customResources (ICustomResource r) = {r}"
| "customResources (IArr xs) = (\<Union>x\<in>set xs. customResources x)"
| "customResources (IObj kvs) = (\<Union>p\<in>set kvs. customResources (snd p))"
| "customResources (IPromise (Resolved v)) = customResources v"
| "customResources _ = {}"

fun plainValue :: "input \<Rightarrow> bool" where
  "plainValue (IArr xs) = list_all plainValue xs"
| "plainValue (IObj kvs) = (distinct (map fst kvs) \<and> list_all (\<lambda>p. plainValue (snd p)) kvs)"
| "plainValue (IPromise (Resolved v)) = plainValue v"
| "plainValue (IPromise _) = False"
| "plainValue (IAsset kvs) = False"
| "plainValue (IArchive kvs) = False"
| "plainValue (IOutput l) = False"
| "plainValue (IComponentResource r) = False"
| "plainValue _ = True"

text \<open>
  An \<open>urn\<close> or \<open>id\<close> output whose four parts have resolved and that names no resource
  but its own, as the \<open>Resource\<close> constructor builds them.
\<close>

definition settledOwn :: "rid \<Rightarrow> string option lazy \<Rightarrow> bool" where
  "settledOwn r l =
     (case l of
        Lazy (Resolved rs) (Resolved k) (Resolved s) (Resolved v) \<Rightarrow> set rs \<subseteq> {r}
      | _ \<Rightarrow> False)"

text \<open>
  \<open>opts?.excludeResourceReferencesFromDependencies && getStore().supportsResourceReferences\<close>.
\<close>

definition excluding :: "store \<Rightarrow> serializationOptions \<Rightarrow> bool" where
  "excluding st opts =
     (excludeResourceReferencesFromDependencies opts \<and> supportsResourceReferences st)"

text \<open>
  A store for the examples: every feature on, resource \<open>r\<close> with the URN \<open>urn:r\<close>, the
  id \<open>id-r\<close> and a property that holds the resource itself.
\<close>

definition exampleStore :: store where
  "exampleStore =
     \<lparr>supportsSecrets = True, supportsResourceReferences = True, supportsOutputValues = True,
      urnOf = (\<lambda>r. Lazy (Resolved [r]) (Resolved True) (Resolved (Some False))
                       (Resolved (Some (''urn:'' @ showNat r)))),
      idOf = (\<lambda>r. Lazy (Resolved [r]) (Resolved True) (Resolved (Some False))
                      (Resolved (Some (''id-'' @ showNat r)))),
      propertiesOf = (\<lambda>r. [(''self'', IComponentResource r)]),
      transitiveURNs = (\<lambda>rs. Resolved (map (\<lambda>r. ''urn:'' @ showNat r) rs))\<rparr>"

section \<open>Properties of property transfer\<close>

lemma map_of_setProp: "map_of (setProp k v xs) k' = (if k' = k then Some v else map_of xs k')"
  by (induction xs) auto

lemma setProp_same: "map_of xs k = Some v \<Longrightarrow> setProp k v xs = xs"
  by (induction xs) (auto split: if_splits)

lemma transferLoop_keeps_cell:
  "transferLoop label ks st = Inr st' \<Longrightarrow> map_of (onto st) k \<noteq> None \<Longrightarrow>
   map_of (cells st') k = map_of (cells st) k"
proof (induction ks arbitrary: st)
  case Nil
  then show ?case by simp
next
  case (Cons a ks)
  show ?case
  proof (cases "a = ''id'' \<or> a = ''urn''")
    case True
    with Cons show ?thesis by auto
  next
    case False
    with Cons.prems have fresh: "map_of (onto st) a = None"
      by (auto split: if_splits)
    let ?st1 = "\<lparr>onto = setProp a (TransferredOutput a) (onto st),
                 cells = setProp a unresolved (cells st),
                 resolverKeys = (if a \<in> set (resolverKeys st) then resolverKeys st
                                 else resolverKeys st @ [a])\<rparr>"
    from False fresh Cons.prems have run: "transferLoop label ks ?st1 = Inr st'"
      by simp
    from fresh Cons.prems have "k \<noteq> a" by auto
    moreover have "map_of (onto ?st1) k \<noteq> None"
      using Cons.prems(2) by (simp add: map_of_setProp)
    ultimately show ?thesis
      using Cons.IH [OF run] by (simp add: map_of_setProp)
  qed
qed

lemma transferLoop_new_cell:
  "transferLoop label ks st = Inr st' \<Longrightarrow> k \<in> set (resolverKeys st') \<Longrightarrow>
   k \<in> set (resolverKeys st) \<or> map_of (cells st') k = Some unresolved"
proof (induction ks arbitrary: st)
  case Nil
  then show ?case by simp
next
  case (Cons a ks)
  show ?case
  proof (cases "a = ''id'' \<or> a = ''urn''")
    case True
    with Cons show ?thesis by auto
  next
    case False
    with Cons.prems have fresh: "map_of (onto st) a = None"
      by (auto split: if_splits)
    let ?st1 = "\<lparr>onto = setProp a (TransferredOutput a) (onto st),
                 cells = setProp a unresolved (cells st),
                 resolverKeys = (if a \<in> set (resolverKeys st) then resolverKeys st
                                 else resolverKeys st @ [a])\<rparr>"
    from False fresh Cons.prems have run: "transferLoop label ks ?st1 = Inr st'"
      by simp
    from Cons.IH [OF run Cons.prems(2)]
    consider "k \<in> set (resolverKeys st)" | "k = a" | "map_of (cells st') k = Some unresolved"
      by (auto split: if_splits)
    then show ?thesis
    proof cases
      case 2
      have "map_of (onto ?st1) a \<noteq> None" by (simp add: map_of_setProp)
      from transferLoop_keeps_cell [OF run this] 2 show ?thesis
        by (simp add: map_of_setProp)
    qed auto
  qed
qed

text \<open>
  C4. Every resolver closure that \<open>transferProperties\<close> returns starts with its four
  promises pending. Called with a gRPC error it leaves all four as they are; called with
  any other error it rejects all four with that error; called without an error it
  fulfils them with the value, isKnown, isSecret and the dependencies, \<open>[]\<close> when the
  dependencies are not given.
\<close>

theorem transferProperties_resolver:
  assumes "transferProperties target label props = Inr st"
    and "k \<in> set (resolverKeys st)"
  shows "map_of (cells st) k = Some unresolved
    \<and> (isGrpcError e \<longrightarrow>
         callResolver isGrpcError k v isKnown isSecret deps (Some e) (cells st) = cells st)
    \<and> (\<not> isGrpcError e \<longrightarrow>
         map_of (callResolver isGrpcError k v isKnown isSecret deps (Some e) (cells st)) k
           = Some \<lparr>valueP = Rejected e, isKnownP = Rejected e,
                   isSecretP = Rejected e, depsP = Rejected e\<rparr>)
    \<and> map_of (callResolver isGrpcError k v isKnown isSecret deps None (cells st)) k
         = Some \<lparr>valueP = Fulfilled v, isKnownP = Fulfilled isKnown,
                 isSecretP = Fulfilled isSecret,
                 depsP = Fulfilled (case deps of None \<Rightarrow> [] | Some d \<Rightarrow> d)\<rparr>"
proof -
  from assms(1) have run: "transferLoop label (map fst props)
      \<lparr>onto = target, cells = [], resolverKeys = []\<rparr> = Inr st"
    by (simp add: transferProperties_def)
  from transferLoop_new_cell [OF run assms(2)]
  have cell: "map_of (cells st) k = Some unresolved"
    by simp
  have quiet: "callResolver isGrpcError k v isKnown isSecret deps (Some e) (cells st) = cells st"
    if "isGrpcError e"
    using that cell by (simp add: callResolver_def resolver_def setProp_same)
  show ?thesis
    using cell quiet
    by (simp add: callResolver_def resolver_def map_of_setProp unresolved_def)
qed

theorem transferProperties_resolver_witness:
  "(\<exists>st. transferProperties [] ''bucket'' [(''arn'', ())] = Inr st
      \<and> ''arn'' \<in> set (resolverKeys st)
      \<and> callResolver (\<lambda>e. e = ''cancelled'') ''arn'' (DNum 1) True False None
           (Some ''cancelled'') (cells st) = cells st
      \<and> map_of (callResolver (\<lambda>e. e = ''cancelled'') ''arn'' (DNum 1) True False None
           (Some ''boom'') (cells st)) ''arn''
          = Some \<lparr>valueP = Rejected ''boom'', isKnownP = Rejected ''boom'',
                  isSecretP = Rejected ''boom'', depsP = Rejected ''boom''\<rparr>
      \<and> map_of (callResolver (\<lambda>e. e = ''cancelled'') ''arn'' (DNum 1) True False
           (None :: nat list option) None (cells st)) ''arn''
          = Some \<lparr>valueP = Fulfilled (DNum 1), isKnownP = Fulfilled True,
                  isSecretP = Fulfilled False, depsP = Fulfilled []\<rparr>)"
proof -
  define st :: "(dval, nat, string) transfer" where
    "st = \<lparr>onto = [(''arn'', TransferredOutput ''arn'')],
           cells = [(''arn'', unresolved)], resolverKeys = [''arn'']\<rparr>"
  have run: "transferProperties [] ''bucket'' [(''arn'', ())] = Inr st"
    by (simp add: transferProperties_def st_def)
  have key: "''arn'' \<in> set (resolverKeys st)"
    by (simp add: st_def)
  note inst = transferProperties_resolver [OF run key, where isGrpcError = "\<lambda>e. e = ''cancelled''"
      and v = "DNum 1" and isKnown = True and isSecret = False and deps = None]
  from inst [of "''cancelled''"] inst [of "''boom''"] run key show ?thesis
    by (intro exI [of _ st]) simp
qed

section \<open>Properties of resolveProperties\<close>

lemma resolveMissing_recorded:
  "resolveMissing dryRun keepUnknowns allProps (map (\<lambda>k. (k, recordCall k)) ks) log
     = Inr (log @ map (\<lambda>k. (k, DUndefined, \<not> dryRun \<and> \<not> keepUnknowns, False, None, None))
                     (filter (\<lambda>k. map_of allProps k = None) ks))"
  by (induction ks arbitrary: log) (simp_all add: recordCall_def isDryRun_function_truthy_def)

text \<open>
  C1, at the input where the code and the specification part. Outside a preview, with
  \<open>keepUnknowns\<close> set, no error, and a resolver \<open>a\<close> that has no property in \<open>allProps\<close>,
  \<open>resolveProperties\<close> calls the resolver once, with \<open>undefined\<close> and \<open>isKnown = false\<close>;
  the unknown sentinel is not passed.
\<close>

theorem resolveProperties_missing_keepUnknowns:
  "resolveProperties False [(''a'', recordCall ''a'')] ''pkg:mod:Typ'' ''name'' [] [] None True
     ([] :: (nat, string) call list)
   = Inr [(''a'', DUndefined, False, False, None, None)]"
  by (simp add: resolveProperties_def recordCall_def isDryRun_function_truthy_def)

section \<open>Properties of the registry\<close>

lemma compareNumbers_flip: "compareNumbers b a = flipCmp (compareNumbers a b)"
  by (auto simp: compareNumbers_def)

lemma compareIdentifiers_flip: "compareIdentifiers b a = flipCmp (compareIdentifiers a b)"
  by (cases a; cases b) (auto simp: compareNumbers_def)

lemma compareIdentifiers_Same: "compareIdentifiers a b = Same \<longleftrightarrow> a = b"
  by (cases a; cases b) (auto simp: compareNumbers_def)

lemma comparePreLoop_flip: "comparePreLoop q p = flipCmp (comparePreLoop p q)"
proof (induction p q rule: comparePreLoop.induct)
  case (4 a as b bs)
  then show ?case
    using compareIdentifiers_flip [of a b] by (cases "compareIdentifiers b a") auto
qed simp_all

lemma comparePreLoop_Same: "comparePreLoop p q = Same \<longleftrightarrow> p = q"
  by (induction p q rule: comparePreLoop.induct) (auto simp: compareIdentifiers_Same)

lemma compareIdentifiers_le_trans:
  "compareIdentifiers a b \<noteq> Greater \<Longrightarrow> compareIdentifiers b c \<noteq> Greater \<Longrightarrow>
   compareIdentifiers a c \<noteq> Greater"
proof (cases a; cases b; cases c)
  fix x y z
  assume "a = Numeric x" "b = Numeric y" "c = Numeric z"
    and "compareIdentifiers a b \<noteq> Greater" "compareIdentifiers b c \<noteq> Greater"
  then show ?thesis
    by (simp add: compareNumbers_def split: if_splits)
next
  fix x y z
  assume *: "a = Alphanumeric x" "b = Alphanumeric y" "c = Alphanumeric z"
    and "compareIdentifiers a b \<noteq> Greater" "compareIdentifiers b c \<noteq> Greater"
  then have "x \<le> y" "y \<le> z"
    by (simp_all split: if_splits)
  then have "x \<le> z" by (rule order_trans)
  then show ?thesis
    using * by auto
qed simp_all

lemma comparePreLoop_le_trans:
  "comparePreLoop p q \<noteq> Greater \<Longrightarrow> comparePreLoop q r \<noteq> Greater \<Longrightarrow>
   comparePreLoop p r \<noteq> Greater"
proof (induction p q arbitrary: r rule: comparePreLoop.induct)
  case (4 a as b bs)
  then show ?case
  proof (cases r)
    case Nil
    with 4 show ?thesis by simp
  next
    case (Cons c cs)
    show ?thesis
    proof (cases "a = b")
      case True
      with 4 Cons show ?thesis by (auto split: if_splits)
    next
      case ab: False
      show ?thesis
      proof (cases "b = c")
        case True
        with 4 Cons ab show ?thesis by (auto split: if_splits)
      next
        case bc: False
        from 4 ab bc Cons have "compareIdentifiers a b \<noteq> Greater" "compareIdentifiers b c \<noteq> Greater"
          by auto
        then have ac: "compareIdentifiers a c \<noteq> Greater" by (rule compareIdentifiers_le_trans)
        have "a \<noteq> c"
        proof
          assume "a = c"
          with \<open>compareIdentifiers a b \<noteq> Greater\<close> \<open>compareIdentifiers b c \<noteq> Greater\<close> ab
          show False
            using compareIdentifiers_flip [of b a] compareIdentifiers_Same [of a b]
            by (cases "compareIdentifiers a b") auto
        qed
        with ac Cons show ?thesis by simp
      qed
    qed
  qed
next
  case (3 b bs)
  then show ?case by (cases r) simp_all
qed simp_all

lemma totalPreorderI:
  assumes "\<And>a b. f b a = flipCmp (f a b)"
    and "\<And>a b c. f a b \<noteq> Greater \<Longrightarrow> f b c \<noteq> Greater \<Longrightarrow> f a c \<noteq> Greater"
  shows "totalPreorder f"
  using assms unfolding totalPreorder_def by blast

lemma totalPreorder_flip: "totalPreorder f \<Longrightarrow> f b a = flipCmp (f a b)"
  unfolding totalPreorder_def by blast

lemma totalPreorder_trans:
  "totalPreorder f \<Longrightarrow> f a b \<noteq> Greater \<Longrightarrow> f b c \<noteq> Greater \<Longrightarrow> f a c \<noteq> Greater"
  unfolding totalPreorder_def by blast

lemma flipCmp_Greater: "flipCmp c = Greater \<longleftrightarrow> c = Less"
  by (cases c) simp_all

lemma flipCmp_Same: "flipCmp c = Same \<longleftrightarrow> c = Same"
  by (cases c) simp_all

lemma flipCmp_Less: "flipCmp c = Less \<longleftrightarrow> c = Greater"
  by (cases c) simp_all

lemma totalPreorder_Less_le:
  assumes f: "totalPreorder f" and ab: "f a b = Less" and bc: "f b c \<noteq> Greater"
  shows "f a c = Less"
proof -
  from ab have "f a b \<noteq> Greater" by simp
  from totalPreorder_trans [OF f this bc] have ac: "f a c \<noteq> Greater" .
  have "f a c \<noteq> Same"
  proof
    assume "f a c = Same"
    then have "f c a \<noteq> Greater"
      using totalPreorder_flip [OF f, of c a] by simp
    from totalPreorder_trans [OF f bc this] have "f b a \<noteq> Greater" .
    then show False
      using totalPreorder_flip [OF f, of b a] ab by simp
  qed
  with ac show ?thesis by (cases "f a c") simp_all
qed

lemma totalPreorder_le_Less:
  assumes f: "totalPreorder f" and ab: "f a b \<noteq> Greater" and bc: "f b c = Less"
  shows "f a c = Less"
proof -
  from bc have "f b c \<noteq> Greater" by simp
  from totalPreorder_trans [OF f ab this] have ac: "f a c \<noteq> Greater" .
  have "f a c \<noteq> Same"
  proof
    assume "f a c = Same"
    then have "f c a \<noteq> Greater"
      using totalPreorder_flip [OF f, of c a] by simp
    from totalPreorder_trans [OF f this ab] have "f c b \<noteq> Greater" .
    then show False
      using totalPreorder_flip [OF f, of c b] bc by simp
  qed
  with ac show ?thesis by (cases "f a c") simp_all
qed

lemma totalPreorder_Same_Same:
  assumes f: "totalPreorder f" and ab: "f a b = Same" and bc: "f b c = Same"
  shows "f a c = Same"
proof -
  from ab bc have "f a b \<noteq> Greater" "f b c \<noteq> Greater" by simp_all
  from totalPreorder_trans [OF f this] have ac: "f a c \<noteq> Greater" .
  from ab bc have "f c b \<noteq> Greater" "f b a \<noteq> Greater"
    using totalPreorder_flip [OF f, of c b] totalPreorder_flip [OF f, of b a] by simp_all
  from totalPreorder_trans [OF f this] have "f c a \<noteq> Greater" .
  then have "f a c \<noteq> Less"
    using totalPreorder_flip [OF f, of c a] by (cases "f a c") simp_all
  with ac show ?thesis by (cases "f a c") simp_all
qed

lemma totalPreorder_orElse:
  assumes f: "totalPreorder f" and g: "totalPreorder g"
  shows "totalPreorder (\<lambda>a b. orElse (f a b) (g a b))"
proof (rule totalPreorderI)
  fix a b
  show "orElse (f b a) (g b a) = flipCmp (orElse (f a b) (g a b))"
    using totalPreorder_flip [OF f, of b a] totalPreorder_flip [OF g, of b a]
    by (cases "f a b") (simp_all add: orElse_def)
next
  fix a b c
  assume ab: "orElse (f a b) (g a b) \<noteq> Greater" and bc: "orElse (f b c) (g b c) \<noteq> Greater"
  from ab have fab: "f a b \<noteq> Greater" by (cases "f a b") (simp_all add: orElse_def)
  from bc have fbc: "f b c \<noteq> Greater" by (cases "f b c") (simp_all add: orElse_def)
  show "orElse (f a c) (g a c) \<noteq> Greater"
  proof (cases "f a b = Less \<or> f b c = Less")
    case True
    then have "f a c = Less"
      using totalPreorder_Less_le [OF f _ fbc] totalPreorder_le_Less [OF f fab] by blast
    then show ?thesis by (simp add: orElse_def)
  next
    case False
    with fab fbc have s: "f a b = Same" "f b c = Same"
      by (cases "f a b"; simp; cases "f b c"; simp)+
    then have "f a c = Same" by (rule totalPreorder_Same_Same [OF f])
    moreover from s ab bc have "g a b \<noteq> Greater" "g b c \<noteq> Greater"
      by (simp_all add: orElse_def)
    then have "g a c \<noteq> Greater" by (rule totalPreorder_trans [OF g])
    ultimately show ?thesis by (simp add: orElse_def)
  qed
qed

lemma totalPreorder_compareNumbers: "totalPreorder (\<lambda>x y. compareNumbers (sel x) (sel y))"
  by (rule totalPreorderI) (auto simp: compareNumbers_def split: if_splits)

lemma totalPreorder_comparePre: "totalPreorder comparePre"
proof (rule totalPreorderI)
  fix a b
  show "comparePre b a = flipCmp (comparePre a b)"
    using comparePreLoop_flip [of "prerelease b" "prerelease a"]
    by (simp add: comparePre_def)
next
  fix a b c
  assume "comparePre a b \<noteq> Greater" "comparePre b c \<noteq> Greater"
  then show "comparePre a c \<noteq> Greater"
    using comparePreLoop_le_trans [of "prerelease a" "prerelease b" "prerelease c"]
    by (simp add: comparePre_def split: if_splits)
qed

lemma totalPreorder_semverCompare: "totalPreorder semverCompare"
proof -
  have "totalPreorder (\<lambda>x y. orElse (compareNumbers (major x) (major y))
          (orElse (compareNumbers (minor x) (minor y)) (compareNumbers (patch x) (patch y))))"
    by (intro totalPreorder_orElse totalPreorder_compareNumbers)
  then have "totalPreorder compareMain"
    by (simp add: compareMain_def [abs_def])
  from totalPreorder_orElse [OF this totalPreorder_comparePre]
  show ?thesis by (simp add: semverCompare_def [abs_def])
qed


lemma semver_gt_trans: "semver_gt a b \<Longrightarrow> semver_gt b c \<Longrightarrow> semver_gt a c"
proof -
  assume ab: "semver_gt a b" and bc: "semver_gt b c"
  have f: "totalPreorder semverCompare" by (rule totalPreorder_semverCompare)
  from ab have "semverCompare b a = Less"
    using totalPreorder_flip [OF f, of b a] by (simp add: semver_gt_def)
  moreover from bc have "semverCompare c b = Less"
    using totalPreorder_flip [OF f, of c b] by (simp add: semver_gt_def)
  ultimately have "semverCompare c a = Less"
    using totalPreorder_Less_le [OF f, of c b a] by simp
  then show ?thesis
    using totalPreorder_flip [OF f, of a c] by (simp add: semver_gt_def)
qed

lemma semver_gt_above_skipped: "\<not> semver_gt m b \<Longrightarrow> semver_gt x b \<Longrightarrow> semver_gt x m"
proof -
  assume mb: "\<not> semver_gt m b" and xb: "semver_gt x b"
  have f: "totalPreorder semverCompare" by (rule totalPreorder_semverCompare)
  from xb have "semverCompare b x = Less"
    using totalPreorder_flip [OF f, of b x] by (simp add: semver_gt_def)
  with mb have "semverCompare m x = Less"
    using totalPreorder_le_Less [OF f, of m b x] by (simp add: semver_gt_def)
  then show ?thesis
    using totalPreorder_flip [OF f, of x m] by (simp add: semver_gt_def)
qed

lemma semver_gt_asym: "semver_gt a b \<Longrightarrow> \<not> semver_gt b a"
  using totalPreorder_flip [OF totalPreorder_semverCompare, of b a]
  by (simp add: semver_gt_def)


lemma getRegistrationLoop_skips:
  "validEntries parse items \<Longrightarrow>
   getRegistrationLoop parse ver items b bv =
   getRegistrationLoop parse ver
     (filter (\<lambda>e. checkVersion ver (parsedVersion parse e)) items) b bv"
proof (induction items arbitrary: b bv)
  case Nil
  then show ?case by simp
next
  case (Cons x xs)
  then have xs: "validEntries parse xs" and x: "validVersion parse (version x)"
    by (simp_all add: validEntries_def)
  show ?case
  proof (cases "version x")
    case None
    then show ?thesis
      using Cons.IH [OF xs] by (simp add: parsedVersion_def)
  next
    case (Some s)
    with x obtain v where "parse s = Some v"
      by (auto simp: validVersion_def)
    with Some show ?thesis
      using Cons.IH [OF xs] by (simp add: parsedVersion_def newSemVer_def)
  qed
qed

lemma getRegistrationLoop_unversioned_best:
  "validEntries parse xs \<Longrightarrow>
   list_all (\<lambda>e. checkVersion ver (parsedVersion parse e)) xs \<Longrightarrow>
   getRegistrationLoop parse ver xs (Some b) None = Inr (Some b)"
proof (induction xs)
  case Nil
  then show ?case by simp
next
  case (Cons x xs)
  then have xs: "validEntries parse xs" and x: "validVersion parse (version x)"
    and c: "checkVersion ver (parsedVersion parse x)"
    by (simp_all add: validEntries_def)
  show ?case
  proof (cases "version x")
    case None
    then show ?thesis
      using Cons c xs by (simp add: parsedVersion_def)
  next
    case (Some s)
    with x obtain v where "parse s = Some v"
      by (auto simp: validVersion_def)
    with Some show ?thesis
      using Cons c xs by (simp add: parsedVersion_def newSemVer_def)
  qed
qed

lemma getRegistrationLoop_versioned_best:
  assumes "validEntries parse xs"
    and "list_all (\<lambda>e. checkVersion ver (parsedVersion parse e)) xs"
    and "parsedVersion parse b = Some bv"
    and "\<forall>e\<in>set pre0. \<forall>u. parsedVersion parse e = Some u \<longrightarrow> semver_gt bv u"
    and "\<forall>e\<in>set mid. \<forall>u. parsedVersion parse e = Some u \<longrightarrow> \<not> semver_gt u bv"
  shows "\<exists>r v pre post.
           getRegistrationLoop parse ver xs (Some b) (Some bv) = Inr (Some r)
         \<and> pre0 @ b # mid @ xs = pre @ r # post
         \<and> parsedVersion parse r = Some v
         \<and> (\<forall>e\<in>set pre. \<forall>u. parsedVersion parse e = Some u \<longrightarrow> semver_gt v u)
         \<and> (\<forall>e\<in>set post. \<forall>u. parsedVersion parse e = Some u \<longrightarrow> \<not> semver_gt u v)"
  using assms
proof (induction xs arbitrary: b bv pre0 mid)
  case Nil
  then show ?case by auto
next
  case (Cons x xs)
  then have xs: "validEntries parse xs" and x: "validVersion parse (version x)"
    and c: "checkVersion ver (parsedVersion parse x)"
    and cs: "list_all (\<lambda>e. checkVersion ver (parsedVersion parse e)) xs"
    by (simp_all add: validEntries_def)
  have ev: "(case version x of None \<Rightarrow> Inr None
             | Some s \<Rightarrow> (case newSemVer parse s of Inl e \<Rightarrow> Inl e | Inr v \<Rightarrow> Inr (Some v)))
            = Inr (parsedVersion parse x)"
    using x by (auto simp: validVersion_def parsedVersion_def newSemVer_def split: option.splits)
  show ?case
  proof (cases "\<exists>u. parsedVersion parse x = Some u \<and> semver_gt u bv")
    case True
    then obtain u where u: "parsedVersion parse x = Some u" and gt: "semver_gt u bv"
      by blast
    have step: "getRegistrationLoop parse ver (x # xs) (Some b) (Some bv)
                = getRegistrationLoop parse ver xs (Some x) (Some u)"
      using ev c u gt by simp
    have before: "\<forall>e\<in>set (pre0 @ b # mid). \<forall>w. parsedVersion parse e = Some w \<longrightarrow> semver_gt u w"
    proof (intro ballI allI impI)
      fix e w
      assume e: "e \<in> set (pre0 @ b # mid)" and w: "parsedVersion parse e = Some w"
      then consider "e \<in> set pre0" | "e = b" | "e \<in> set mid" by auto
      then show "semver_gt u w"
      proof cases
        case 1
        with Cons.prems(4) w have "semver_gt bv w" by blast
        with gt show ?thesis by (rule semver_gt_trans)
      next
        case 2
        with w Cons.prems(3) gt show ?thesis by simp
      next
        case 3
        with Cons.prems(5) w have "\<not> semver_gt w bv" by blast
        then show ?thesis using gt by (rule semver_gt_above_skipped)
      qed
    qed
    have none: "\<forall>e\<in>set ([] :: 'a registration list). \<forall>w. parsedVersion parse e = Some w \<longrightarrow> \<not> semver_gt w u"
      by simp
    from Cons.IH [OF xs cs u before none] step show ?thesis
      by simp
  next
    case False
    have step: "getRegistrationLoop parse ver (x # xs) (Some b) (Some bv)
                = getRegistrationLoop parse ver xs (Some b) (Some bv)"
      using ev c False by (cases "parsedVersion parse x") simp_all
    have skipped: "\<forall>e\<in>set (mid @ [x]). \<forall>w. parsedVersion parse e = Some w \<longrightarrow> \<not> semver_gt w bv"
      using Cons.prems(5) False by auto
    from Cons.IH [OF xs cs Cons.prems(3) Cons.prems(4) skipped] step show ?thesis
      by simp
  qed
qed

lemma getRegistration_best:
  assumes "validRequest parse version'"
    and "validEntries parse (registered source key)"
  shows "\<exists>res. getRegistration parse source key version' = Inr res
    \<and> (case compatible parse version' (registered source key) of
         [] \<Rightarrow> res = None
       | first # rest \<Rightarrow>
           (case parsedVersion parse first of
              None \<Rightarrow> res = Some first
            | Some _ \<Rightarrow>
                (\<exists>r v pre post. res = Some r
                   \<and> first # rest = pre @ r # post
                   \<and> parsedVersion parse r = Some v
                   \<and> (\<forall>e\<in>set pre. \<forall>u. parsedVersion parse e = Some u \<longrightarrow> semver_gt v u)
                   \<and> (\<forall>e\<in>set post. \<forall>u. parsedVersion parse e = Some u \<longrightarrow> \<not> semver_gt u v))))"
proof -
  let ?items = "registered source key"
  let ?ver = "wanted parse version'"
  let ?kept = "compatible parse version' ?items"
  have ver: "(case version' of None \<Rightarrow> Inr None
              | Some s \<Rightarrow> if s = [] then Inr None
                  else (case newSemVer parse s of Inl e \<Rightarrow> Inl e | Inr v \<Rightarrow> Inr (Some v)))
             = Inr ?ver"
    using assms(1)
    by (auto simp: validRequest_def wanted_def newSemVer_def split: option.splits)
  have run: "getRegistration parse source key version'
             = getRegistrationLoop parse ?ver ?kept None None"
    using ver getRegistrationLoop_skips [OF assms(2), of ?ver None None]
    by (simp add: getRegistration_def registered_def compatible_def)
  have keptValid: "validEntries parse ?kept"
    using assms(2) by (simp add: validEntries_def compatible_def list_all_iff)
  have keptOk: "list_all (\<lambda>e. checkVersion ?ver (parsedVersion parse e)) ?kept"
    by (simp add: compatible_def list_all_iff)
  show ?thesis
  proof (cases ?kept)
    case Nil
    with run show ?thesis by simp
  next
    case (Cons first rest)
    with keptValid keptOk have rv: "validEntries parse rest"
      and rc: "list_all (\<lambda>e. checkVersion ?ver (parsedVersion parse e)) rest"
      and fv: "validVersion parse (version first)"
      and fc: "checkVersion ?ver (parsedVersion parse first)"
      by (simp_all add: validEntries_def)
    have ev: "(case version first of None \<Rightarrow> Inr None
               | Some s \<Rightarrow> (case newSemVer parse s of Inl e \<Rightarrow> Inl e | Inr v \<Rightarrow> Inr (Some v)))
              = Inr (parsedVersion parse first)"
      using fv by (auto simp: validVersion_def parsedVersion_def newSemVer_def split: option.splits)
    have step: "getRegistrationLoop parse ?ver (first # rest) None None
                = getRegistrationLoop parse ?ver rest (Some first) (parsedVersion parse first)"
      using ev fc by simp
    show ?thesis
    proof (cases "parsedVersion parse first")
      case None
      with run Cons step getRegistrationLoop_unversioned_best [OF rv rc, of first]
      show ?thesis by simp
    next
      case (Some bv)
      have e1: "\<forall>e\<in>set ([] :: 'a registration list). \<forall>u. parsedVersion parse e = Some u \<longrightarrow> semver_gt bv u"
        by simp
      have e2: "\<forall>e\<in>set ([] :: 'a registration list). \<forall>u. parsedVersion parse e = Some u \<longrightarrow> \<not> semver_gt u bv"
        by simp
      from getRegistrationLoop_versioned_best [OF rv rc Some e1 e2]
      obtain r v pre post where
        res: "getRegistrationLoop parse ?ver rest (Some first) (Some bv) = Inr (Some r)"
        and split: "first # rest = pre @ r # post"
        and rv': "parsedVersion parse r = Some v"
        and above: "\<forall>e\<in>set pre. \<forall>u. parsedVersion parse e = Some u \<longrightarrow> semver_gt v u"
        and below: "\<forall>e\<in>set post. \<forall>u. parsedVersion parse e = Some u \<longrightarrow> \<not> semver_gt u v"
        by auto
      have "getRegistration parse source key version' = Inr (Some r)"
        using run Cons step Some res by simp
      moreover have "\<exists>r' v pre post. Some r = Some r'
                   \<and> first # rest = pre @ r' # post
                   \<and> parsedVersion parse r' = Some v
                   \<and> (\<forall>e\<in>set pre. \<forall>u. parsedVersion parse e = Some u \<longrightarrow> semver_gt v u)
                   \<and> (\<forall>e\<in>set post. \<forall>u. parsedVersion parse e = Some u \<longrightarrow> \<not> semver_gt u v)"
        using split rv' above below by blast
      ultimately show ?thesis
        using Cons Some by simp
    qed
  qed
qed


lemma specGreatest_unversioned:
  "\<forall>e\<in>set xs. parsedVersion parse e = None \<Longrightarrow> specGreatest parse b xs = b"
  by (induction xs arbitrary: b) (simp_all add: ranksAbove_def)

lemma getRegistrationLoop_specGreatest:
  "validEntries parse xs \<Longrightarrow>
   list_all (\<lambda>e. checkVersion ver (parsedVersion parse e)) xs \<Longrightarrow>
   parsedVersion parse b = Some bv \<Longrightarrow>
   getRegistrationLoop parse ver xs (Some b) (Some bv) = Inr (Some (specGreatest parse b xs))"
proof (induction xs arbitrary: b bv)
  case Nil
  then show ?case by simp
next
  case (Cons x xs)
  then have xs: "validEntries parse xs" and x: "validVersion parse (version x)"
    and c: "checkVersion ver (parsedVersion parse x)"
    and cs: "list_all (\<lambda>e. checkVersion ver (parsedVersion parse e)) xs"
    by (simp_all add: validEntries_def)
  have ev: "(case version x of None \<Rightarrow> Inr None
             | Some s \<Rightarrow> (case newSemVer parse s of Inl e \<Rightarrow> Inl e | Inr v \<Rightarrow> Inr (Some v)))
            = Inr (parsedVersion parse x)"
    using x by (auto simp: validVersion_def parsedVersion_def newSemVer_def split: option.splits)
  show ?case
  proof (cases "parsedVersion parse x")
    case None
    with ev c Cons.IH [OF xs cs Cons.prems(3)] Cons.prems(3) show ?thesis
      by (simp add: ranksAbove_def)
  next
    case (Some u)
    show ?thesis
    proof (cases "semver_gt u bv")
      case True
      with ev c Some Cons.IH [OF xs cs Some] Cons.prems(3) show ?thesis
        by (simp add: ranksAbove_def)
    next
      case False
      with ev c Some Cons.IH [OF xs cs Cons.prems(3)] Cons.prems(3) show ?thesis
        by (simp add: ranksAbove_def)
    qed
  qed
qed

lemma getRegistration_specLookup:
  assumes "validRequest parse version'"
    and "validEntries parse (registered source key)"
    and "case compatible parse version' (registered source key) of
           [] \<Rightarrow> True
         | first # rest \<Rightarrow>
             parsedVersion parse first \<noteq> None \<or> (\<forall>e\<in>set rest. parsedVersion parse e = None)"
  shows "getRegistration parse source key version' = Inr (specLookup parse source key version')"
proof -
  let ?items = "registered source key"
  let ?ver = "wanted parse version'"
  let ?kept = "compatible parse version' ?items"
  have ver: "(case version' of None \<Rightarrow> Inr None
              | Some s \<Rightarrow> if s = [] then Inr None
                  else (case newSemVer parse s of Inl e \<Rightarrow> Inl e | Inr v \<Rightarrow> Inr (Some v)))
             = Inr ?ver"
    using assms(1)
    by (auto simp: validRequest_def wanted_def newSemVer_def split: option.splits)
  have run: "getRegistration parse source key version'
             = getRegistrationLoop parse ?ver ?kept None None"
    using ver getRegistrationLoop_skips [OF assms(2), of ?ver None None]
    by (simp add: getRegistration_def registered_def compatible_def)
  have keptValid: "validEntries parse ?kept"
    using assms(2) by (simp add: validEntries_def compatible_def list_all_iff)
  have keptOk: "list_all (\<lambda>e. checkVersion ?ver (parsedVersion parse e)) ?kept"
    by (simp add: compatible_def list_all_iff)
  show ?thesis
  proof (cases ?kept)
    case Nil
    with run show ?thesis by (simp add: specLookup_def)
  next
    case (Cons first rest)
    with keptValid keptOk have rv: "validEntries parse rest"
      and rc: "list_all (\<lambda>e. checkVersion ?ver (parsedVersion parse e)) rest"
      and fv: "validVersion parse (version first)"
      and fc: "checkVersion ?ver (parsedVersion parse first)"
      by (simp_all add: validEntries_def)
    have ev: "(case version first of None \<Rightarrow> Inr None
               | Some s \<Rightarrow> (case newSemVer parse s of Inl e \<Rightarrow> Inl e | Inr v \<Rightarrow> Inr (Some v)))
              = Inr (parsedVersion parse first)"
      using fv by (auto simp: validVersion_def parsedVersion_def newSemVer_def split: option.splits)
    have step: "getRegistrationLoop parse ?ver (first # rest) None None
                = getRegistrationLoop parse ?ver rest (Some first) (parsedVersion parse first)"
      using ev fc by simp
    show ?thesis
    proof (cases "parsedVersion parse first")
      case None
      with assms(3) Cons have "\<forall>e\<in>set rest. parsedVersion parse e = None"
        by simp
      then have "specGreatest parse first rest = first"
        by (rule specGreatest_unversioned)
      with run Cons step None getRegistrationLoop_unversioned_best [OF rv rc, of first]
      show ?thesis by (simp add: specLookup_def)
    next
      case (Some bv)
      with run Cons step getRegistrationLoop_specGreatest [OF rv rc Some]
      show ?thesis by (simp add: specLookup_def)
    qed
  qed
qed

lemmas compare_eval =
  semverCompare_def compareMain_def comparePre_def orElse_def compareNumbers_def release_def

lemmas registry_eval =
  getRegistration_def register_def exampleParse_def checkVersion_def newSemVer_def
  sameVersion_def semver_eq_def semver_gt_def compare_eval

lemma registerLoop_found:
  "validEntries parse items \<Longrightarrow> validVersion parse (version item) \<Longrightarrow>
   registerLoop parse items item
     = Inr (\<exists>e\<in>set items. sameVersion parse (version e) (version item) = Inr True)"
proof (induction items)
  case Nil
  then show ?case by simp
next
  case (Cons x xs)
  then have xs: "validEntries parse xs" and x: "validVersion parse (version x)"
    by (simp_all add: validEntries_def)
  from x Cons.prems(2) obtain same where
    same: "sameVersion parse (version x) (version item) = Inr same"
    by (auto simp: sameVersion_def validVersion_def newSemVer_def split: option.splits)
  with Cons.IH [OF xs Cons.prems(2)] show ?case
    by (cases same) simp_all
qed

text \<open>
  C7. With no entry under the key yet, registering an entry returns true and leaves
  exactly that entry under the key; registering an entry of the same version again
  (an absent version equals any) returns false and changes nothing. In general, for
  versions that parse, an entry is appended, and true returned, exactly when no entry
  under the key has the same version.
\<close>

theorem register_idempotent:
  assumes "source key = None"
    and "sameVersion parse (version item) (version item') = Inr True"
  shows "register parse source t key item = Inr (True, source(key \<mapsto> [item]))
    \<and> register parse (source(key \<mapsto> [item])) t key item' = Inr (False, source(key \<mapsto> [item]))
    \<and> (validEntries parse (registered table key') \<and> validVersion parse (version new) \<longrightarrow>
         register parse table t key' new
           = Inr (if \<exists>e\<in>set (registered table key').
                       sameVersion parse (version e) (version new) = Inr True
                  then (False, table)
                  else (True, table(key' \<mapsto> registered table key' @ [new]))))"
proof (intro conjI impI)
  show "register parse source t key item = Inr (True, source(key \<mapsto> [item]))"
    using assms(1) by (simp add: register_def)
  show "register parse (source(key \<mapsto> [item])) t key item' = Inr (False, source(key \<mapsto> [item]))"
    using assms(2) by (simp add: register_def)
next
  assume a: "validEntries parse (registered table key') \<and> validVersion parse (version new)"
  show "register parse table t key' new
           = Inr (if \<exists>e\<in>set (registered table key').
                       sameVersion parse (version e) (version new) = Inr True
                  then (False, table)
                  else (True, table(key' \<mapsto> registered table key' @ [new])))"
  proof (cases "table key'")
    case None
    then show ?thesis by (simp add: register_def registered_def)
  next
    case (Some items)
    with a have "registerLoop parse items new
      = Inr (\<exists>e\<in>set items. sameVersion parse (version e) (version new) = Inr True)"
      using registerLoop_found [of parse items new] by (simp add: registered_def)
    with Some show ?thesis by (simp add: register_def registered_def)
  qed
qed

theorem register_idempotent_witness:
  "register exampleParse Map.empty ''package'' ''aws'' \<lparr>version = Some ''1.2.3'', body = (0::nat)\<rparr>
     = Inr (True, [''aws'' \<mapsto> [\<lparr>version = Some ''1.2.3'', body = 0\<rparr>]])
   \<and> register exampleParse [''aws'' \<mapsto> [\<lparr>version = Some ''1.2.3'', body = 0\<rparr>]] ''package'' ''aws''
       \<lparr>version = Some ''1.2.3'', body = (1::nat)\<rparr>
     = Inr (False, [''aws'' \<mapsto> [\<lparr>version = Some ''1.2.3'', body = 0\<rparr>]])
   \<and> register exampleParse [''aws'' \<mapsto> [\<lparr>version = Some ''1.2.3'', body = 0\<rparr>]] ''package'' ''aws''
       \<lparr>version = Some ''1.5.0'', body = (2::nat)\<rparr>
     = Inr (True, [''aws'' \<mapsto> [\<lparr>version = Some ''1.2.3'', body = 0\<rparr>,
                                  \<lparr>version = Some ''1.5.0'', body = 2\<rparr>]])"
proof -
  let ?a = "\<lparr>version = Some ''1.2.3'', body = (0::nat)\<rparr>"
  let ?b = "\<lparr>version = Some ''1.2.3'', body = (1::nat)\<rparr>"
  let ?c = "\<lparr>version = Some ''1.5.0'', body = (2::nat)\<rparr>"
  have fresh: "(Map.empty :: string \<rightharpoonup> nat registration list) ''aws'' = None"
    by simp
  have same: "sameVersion exampleParse (version ?a) (version ?b) = Inr True"
    by (simp add: registry_eval)
  have entries: "validEntries exampleParse (registered [''aws'' \<mapsto> [?a]] ''aws'')
      \<and> validVersion exampleParse (version ?c)"
    by (simp add: validEntries_def registered_def validVersion_def exampleParse_def)
  have other: "\<not> (\<exists>e\<in>set (registered [''aws'' \<mapsto> [?a]] ''aws'').
      sameVersion exampleParse (version e) (version ?c) = Inr True)"
    by (simp add: registered_def registry_eval)
  from register_idempotent [where source = Map.empty and key = "''aws''" and parse = exampleParse
      and item = ?a and item' = ?b and t = "''package''"
      and table = "[''aws'' \<mapsto> [?a]]" and key' = "''aws''" and new = ?c, OF fresh same]
    entries other
  show ?thesis
    by (simp add: registered_def)
qed

text \<open>
  C3, as the code has it. For versions that parse, \<open>getRegistration\<close> keeps the entries
  that pass \<open>checkVersion\<close>. With none kept it returns \<open>undefined\<close>. When the first kept
  entry has no version, that entry is returned, whatever follows it. Otherwise it returns
  a kept entry \<open>r\<close> with a version that is strictly greater than the version of every
  kept entry before \<open>r\<close> and not below the version of any kept entry after it (entries
  without a version are passed over): the greatest version, the first of equals. So the
  result is the one the specification describes whenever the first kept entry has a
  version or no kept entry has one. After registering 1.2.3 and then 1.5.0 under a fresh
  key, version 1.2.0 finds the 1.5.0 entry and version 2.0.0 finds nothing.
\<close>

theorem getRegistration_greatest_compatible:
  "(validRequest parse version' \<and> validEntries parse (registered source key) \<longrightarrow>
     (\<exists>res. getRegistration parse source key version' = Inr res
       \<and> (case compatible parse version' (registered source key) of
            [] \<Rightarrow> res = None
          | first # rest \<Rightarrow>
              (case parsedVersion parse first of
                 None \<Rightarrow> res = Some first
               | Some _ \<Rightarrow>
                   (\<exists>r v pre post. res = Some r
                      \<and> first # rest = pre @ r # post
                      \<and> parsedVersion parse r = Some v
                      \<and> (\<forall>e\<in>set pre. \<forall>u. parsedVersion parse e = Some u \<longrightarrow> semver_gt v u)
                      \<and> (\<forall>e\<in>set post. \<forall>u. parsedVersion parse e = Some u \<longrightarrow> \<not> semver_gt u v))))))
   \<and> (validRequest parse version' \<and> validEntries parse (registered source key)
        \<and> (case compatible parse version' (registered source key) of
              [] \<Rightarrow> True
            | first # rest \<Rightarrow>
                parsedVersion parse first \<noteq> None
                \<or> (\<forall>e\<in>set rest. parsedVersion parse e = None)) \<longrightarrow>
       getRegistration parse source key version' = Inr (specLookup parse source key version'))
   \<and> (parse ''1.2.3'' = Some (release 1 2 3) \<and> parse ''1.5.0'' = Some (release 1 5 0)
        \<and> parse ''1.2.0'' = Some (release 1 2 0) \<and> parse ''2.0.0'' = Some (release 2 0 0)
        \<and> table k = None \<longrightarrow>
       (\<exists>t1 t2.
          register parse table kind k \<lparr>version = Some ''1.2.3'', body = a\<rparr> = Inr (True, t1)
        \<and> register parse t1 kind k \<lparr>version = Some ''1.5.0'', body = b\<rparr> = Inr (True, t2)
        \<and> getRegistration parse t2 k (Some ''1.2.0'') = Inr (Some \<lparr>version = Some ''1.5.0'', body = b\<rparr>)
        \<and> getRegistration parse t2 k (Some ''2.0.0'') = Inr None))"
proof (intro conjI impI)
  assume "validRequest parse version' \<and> validEntries parse (registered source key)"
  then show "\<exists>res. getRegistration parse source key version' = Inr res
       \<and> (case compatible parse version' (registered source key) of
            [] \<Rightarrow> res = None
          | first # rest \<Rightarrow>
              (case parsedVersion parse first of
                 None \<Rightarrow> res = Some first
               | Some _ \<Rightarrow>
                   (\<exists>r v pre post. res = Some r
                      \<and> first # rest = pre @ r # post
                      \<and> parsedVersion parse r = Some v
                      \<and> (\<forall>e\<in>set pre. \<forall>u. parsedVersion parse e = Some u \<longrightarrow> semver_gt v u)
                      \<and> (\<forall>e\<in>set post. \<forall>u. parsedVersion parse e = Some u \<longrightarrow> \<not> semver_gt u v))))"
    using getRegistration_best [of parse version' source key] by blast
next
  assume "validRequest parse version' \<and> validEntries parse (registered source key)
        \<and> (case compatible parse version' (registered source key) of
              [] \<Rightarrow> True
            | first # rest \<Rightarrow>
                parsedVersion parse first \<noteq> None
                \<or> (\<forall>e\<in>set rest. parsedVersion parse e = None))"
  then show "getRegistration parse source key version' = Inr (specLookup parse source key version')"
    using getRegistration_specLookup [of parse version' source key] by blast
next
  assume p: "parse ''1.2.3'' = Some (release 1 2 3) \<and> parse ''1.5.0'' = Some (release 1 5 0)
        \<and> parse ''1.2.0'' = Some (release 1 2 0) \<and> parse ''2.0.0'' = Some (release 2 0 0)
        \<and> table k = None"
  let ?x = "\<lparr>version = Some ''1.2.3'', body = a\<rparr>"
  let ?y = "\<lparr>version = Some ''1.5.0'', body = b\<rparr>"
  have r1: "register parse table kind k ?x = Inr (True, table(k \<mapsto> [?x]))"
    using p by (simp add: register_def)
  have r2: "register parse (table(k \<mapsto> [?x])) kind k ?y = Inr (True, table(k \<mapsto> [?x, ?y]))"
    using p by (simp add: register_def sameVersion_def newSemVer_def semver_eq_def compare_eval)
  have g1: "getRegistration parse (table(k \<mapsto> [?x, ?y])) k (Some ''1.2.0'') = Inr (Some ?y)"
    using p by (simp add: getRegistration_def newSemVer_def checkVersion_def semver_gt_def compare_eval)
  have g2: "getRegistration parse (table(k \<mapsto> [?x, ?y])) k (Some ''2.0.0'') = Inr None"
    using p by (simp add: getRegistration_def newSemVer_def checkVersion_def semver_gt_def compare_eval)
  from r1 r2 g1 g2
  show "\<exists>t1 t2.
          register parse table kind k ?x = Inr (True, t1)
        \<and> register parse t1 kind k ?y = Inr (True, t2)
        \<and> getRegistration parse t2 k (Some ''1.2.0'') = Inr (Some ?y)
        \<and> getRegistration parse t2 k (Some ''2.0.0'') = Inr None"
    by blast
qed

theorem getRegistration_greatest_compatible_witness:
  "validRequest exampleParse (Some ''1.2.0'')
   \<and> validEntries exampleParse
        (registered [''k'' \<mapsto> [\<lparr>version = Some ''1.2.3'', body = (0::nat)\<rparr>,
                                 \<lparr>version = Some ''1.5.0'', body = 1\<rparr>]] ''k'')
   \<and> getRegistration exampleParse
        [''k'' \<mapsto> [\<lparr>version = Some ''1.2.3'', body = (0::nat)\<rparr>, \<lparr>version = Some ''1.5.0'', body = 1\<rparr>]]
        ''k'' (Some ''1.2.0'')
      = Inr (Some \<lparr>version = Some ''1.5.0'', body = 1\<rparr>)
   \<and> (case compatible exampleParse (Some ''1.2.0'')
             (registered [''k'' \<mapsto> [\<lparr>version = Some ''1.2.3'', body = (0::nat)\<rparr>,
                                      \<lparr>version = Some ''1.5.0'', body = 1\<rparr>]] ''k'') of
          [] \<Rightarrow> True
        | first # rest \<Rightarrow>
            parsedVersion exampleParse first \<noteq> None
            \<or> (\<forall>e\<in>set rest. parsedVersion exampleParse e = None))
   \<and> getRegistration exampleParse
        [''k'' \<mapsto> [\<lparr>version = Some ''1.2.3'', body = (0::nat)\<rparr>, \<lparr>version = Some ''1.5.0'', body = 1\<rparr>]]
        ''k'' (Some ''1.2.0'')
      = Inr (specLookup exampleParse
        [''k'' \<mapsto> [\<lparr>version = Some ''1.2.3'', body = (0::nat)\<rparr>, \<lparr>version = Some ''1.5.0'', body = 1\<rparr>]]
        ''k'' (Some ''1.2.0''))
   \<and> (\<exists>t1 t2.
          register exampleParse Map.empty ''module'' ''k'' \<lparr>version = Some ''1.2.3'', body = (0::nat)\<rparr>
            = Inr (True, t1)
        \<and> register exampleParse t1 ''module'' ''k'' \<lparr>version = Some ''1.5.0'', body = 1\<rparr> = Inr (True, t2)
        \<and> getRegistration exampleParse t2 ''k'' (Some ''1.2.0'')
            = Inr (Some \<lparr>version = Some ''1.5.0'', body = 1\<rparr>)
        \<and> getRegistration exampleParse t2 ''k'' (Some ''2.0.0'') = Inr None)"
proof -
  let ?t = "[''k'' \<mapsto> [\<lparr>version = Some ''1.2.3'', body = (0::nat)\<rparr>, \<lparr>version = Some ''1.5.0'', body = 1\<rparr>]]"
  have v: "validRequest exampleParse (Some ''1.2.0'')"
    by (simp add: validRequest_def exampleParse_def)
  have e: "validEntries exampleParse (registered ?t ''k'')"
    by (simp add: validEntries_def registered_def validVersion_def exampleParse_def)
  have g: "getRegistration exampleParse ?t ''k'' (Some ''1.2.0'')
      = Inr (Some \<lparr>version = Some ''1.5.0'', body = 1\<rparr>)"
    by (simp add: registry_eval)
  have p: "exampleParse ''1.2.3'' = Some (release 1 2 3) \<and> exampleParse ''1.5.0'' = Some (release 1 5 0)
        \<and> exampleParse ''1.2.0'' = Some (release 1 2 0) \<and> exampleParse ''2.0.0'' = Some (release 2 0 0)
        \<and> (Map.empty :: string \<rightharpoonup> nat registration list) ''k'' = None"
    by (simp add: exampleParse_def)
  have h: "case compatible exampleParse (Some ''1.2.0'') (registered ?t ''k'') of
          [] \<Rightarrow> True
        | first # rest \<Rightarrow>
            parsedVersion exampleParse first \<noteq> None
            \<or> (\<forall>e\<in>set rest. parsedVersion exampleParse e = None)"
    by (simp add: registry_eval compatible_def registered_def wanted_def parsedVersion_def)
  from getRegistration_greatest_compatible [where parse = exampleParse
      and version' = "Some ''1.2.0''" and source = ?t and key = "''k''"
      and table = "Map.empty" and k = "''k''" and kind = "''module''" and a = 0 and b = 1] v e g p h
  show ?thesis by blast
qed

text \<open>
  C3 as stated fails where an entry without a version comes first: both entries below are
  compatible with a lookup that asks for no version, the specification's ranking picks
  the entry with version 1.0.0, and \<open>getRegistration\<close> returns the entry without one.
\<close>

theorem getRegistration_unversioned_first_counterexample:
  "getRegistration exampleParse
     [''k'' \<mapsto> [\<lparr>version = None, body = (0::nat)\<rparr>, \<lparr>version = Some ''1.0.0'', body = 1\<rparr>]] ''k'' None
     = Inr (Some \<lparr>version = None, body = 0\<rparr>)
   \<and> specLookup exampleParse
     [''k'' \<mapsto> [\<lparr>version = None, body = (0::nat)\<rparr>, \<lparr>version = Some ''1.0.0'', body = 1\<rparr>]] ''k'' None
     = Some \<lparr>version = Some ''1.0.0'', body = 1\<rparr>"
  by (simp add: registry_eval specLookup_def compatible_def registered_def wanted_def
      parsedVersion_def ranksAbove_def)

section \<open>Properties of the reverse marshaler\<close>


lemma getProp_cases: "getProp kvs k = WUndefined \<and> map_of kvs k = None \<or> (k, getProp kvs k) \<in> set kvs"
  by (auto simp: getProp_def split: option.splits dest: map_of_SomeD)


lemma set_setProp: "set (setProp k v xs) \<subseteq> insert (k, v) (set xs)"
  by (induction xs) (auto split: if_splits)

lemma wsz_element: "x \<in> set xs \<Longrightarrow> wsz x < wsz (WArr xs)"
  by (induction xs) auto

text \<open>The plain-object branch of deserializeProperty.\<close>

lemma deserializeProperty_plain:
  "\<not> truthy (getProp kvs specialSigKey) \<Longrightarrow>
   deserializeProperty rt keep (WObj kvs) =
     (case deserializeMembers rt keep kvs (map fst kvs) False [] of
        Inl e \<Rightarrow> Inl e
      | Inr (hadSecrets, obj) \<Rightarrow>
          Inr (if hadSecrets then secretEnvelope (DObj obj) else DObj obj))"
  by simp





lemma lookupVersioned_error:
  "lookupVersioned parse table key v = Inl e \<Longrightarrow> e = TypeError \<or> (\<exists>x. e = BadVersion x)"
  by (auto simp: lookupVersioned_def split: sum.splits wire.splits if_splits)

lemma getResourcePackage_not_undefined [simp]:
  "getResourcePackage rt k v \<noteq> Inl UnexpectedUndefined"
  using lookupVersioned_error [of "parseVersion rt" "resourcePackages rt" k v UnexpectedUndefined]
  by (auto simp: getResourcePackage_def)

lemma getResourceModule_not_undefined [simp]:
  "getResourceModule rt p m v \<noteq> Inl UnexpectedUndefined"
  using lookupVersioned_error [of "parseVersion rt" "resourceModules rt" "moduleKey p m" v UnexpectedUndefined]
  by (auto simp: getResourceModule_def)







lemma isRpcSecret_secretEnvelope [simp]: "isRpcSecret (secretEnvelope v)"
  by (simp add: secretEnvelope_def specialSigKey_def)

lemma unwrapRpcSecret_secretEnvelope [simp]: "unwrapRpcSecret (secretEnvelope v) = v"
  using isRpcSecret_secretEnvelope [of v]
  by (simp add: secretEnvelope_def specialSigKey_def del: isRpcSecret_secretEnvelope)

lemma unwrapRpcSecret_plain: "\<not> isRpcSecret v \<Longrightarrow> unwrapRpcSecret v = v"
  by (cases v) simp_all

lemma setProp_fresh: "k \<notin> fst ` set xs \<Longrightarrow> setProp k v xs = xs @ [(k, v)]"
  by (induction xs) auto

lemma deserializeElements_result:
  "\<forall>x\<in>set xs. \<exists>v. deserializeProperty rt keep x = Inr v \<Longrightarrow>
   deserializeElements rt keep xs h acc =
     Inr (h \<or> (\<exists>x\<in>set xs. isRpcSecret (deserialized rt keep x)),
          acc @ map (\<lambda>x. unwrapRpcSecret (deserialized rt keep x)) xs)"
proof (induction xs arbitrary: h acc)
  case Nil
  then show ?case by simp
next
  case (Cons x xs)
  then obtain v where v: "deserializeProperty rt keep x = Inr v" by auto
  from Cons.prems have "\<forall>x\<in>set xs. \<exists>v. deserializeProperty rt keep x = Inr v" by simp
  from Cons.IH [OF this] v show ?case
    by (auto simp: deserialized_def)
qed

lemma deserializeMembers_result:
  assumes "distinct (map fst kvs)"
    and "\<forall>p\<in>set kvs. \<exists>v. deserializeProperty rt keep (snd p) = Inr v"
    and "kvs = pre @ rest"
  shows "deserializeMembers rt keep kvs (map fst rest) h
           (map (\<lambda>p. (fst p, unwrapRpcSecret (deserialized rt keep (snd p)))) pre) =
         Inr (h \<or> (\<exists>p\<in>set rest. isRpcSecret (deserialized rt keep (snd p))),
              map (\<lambda>p. (fst p, unwrapRpcSecret (deserialized rt keep (snd p)))) kvs)"
  using assms(3)
proof (induction rest arbitrary: pre h)
  case Nil
  then show ?case by simp
next
  case (Cons p rest)
  obtain k w where p: "p = (k, w)" by (cases p)
  from Cons.prems p assms(1) have fresh: "k \<notin> fst ` set pre"
    by auto
  then have get: "getProp kvs k = w"
    using Cons.prems p by (simp add: getProp_def map_of_eq_None_iff [THEN iffD2] map_add_def
        split: option.splits)
  from assms(2) Cons.prems p obtain v where v: "deserializeProperty rt keep w = Inr v"
    by auto
  have split: "kvs = (pre @ [p]) @ rest"
    using Cons.prems by simp
  have "setProp k (unwrapRpcSecret v)
          (map (\<lambda>p. (fst p, unwrapRpcSecret (deserialized rt keep (snd p)))) pre)
        = map (\<lambda>p. (fst p, unwrapRpcSecret (deserialized rt keep (snd p)))) (pre @ [p])"
    using fresh v p by (simp add: setProp_fresh image_image deserialized_def)
  with Cons.IH [OF split, of "h \<or> isRpcSecret v"] get v p show ?case
    by (auto simp: deserialized_def)
qed

lemma deserializeElements_all:
  assumes "\<forall>x\<in>set xs. \<forall>d. deserializeProperty rt keep x = Inr d \<longrightarrow> Q (unwrapRpcSecret d)"
    and "list_all Q acc"
    and "deserializeElements rt keep xs h acc = Inr (h', elems)"
  shows "list_all Q elems"
  using assms
proof (induction xs arbitrary: h acc)
  case Nil
  then show ?case by simp
next
  case (Cons x xs)
  from Cons.prems(3) obtain d where d: "deserializeProperty rt keep x = Inr d"
    and run: "deserializeElements rt keep xs (h \<or> isRpcSecret d) (acc @ [unwrapRpcSecret d])
              = Inr (h', elems)"
    by (auto split: sum.splits)
  from Cons.prems(1) d have "Q (unwrapRpcSecret d)" by simp
  with Cons.prems(2) have acc: "list_all Q (acc @ [unwrapRpcSecret d])" by simp
  from Cons.prems(1) have "\<forall>x\<in>set xs. \<forall>d. deserializeProperty rt keep x = Inr d \<longrightarrow> Q (unwrapRpcSecret d)"
    by simp
  from Cons.IH [OF this acc run] show ?case .
qed

lemma deserializeMembers_all:
  assumes "\<forall>k\<in>set ks. \<forall>d. deserializeProperty rt keep (getProp kvs k) = Inr d
              \<longrightarrow> Q k (unwrapRpcSecret d)"
    and "\<forall>p\<in>set acc. Q (fst p) (snd p)"
    and "deserializeMembers rt keep kvs ks h acc = Inr (h', obj)"
  shows "\<forall>p\<in>set obj. Q (fst p) (snd p)"
  using assms
proof (induction ks arbitrary: h acc)
  case Nil
  then show ?case by simp
next
  case (Cons k ks)
  from Cons.prems(3) obtain d where d: "deserializeProperty rt keep (getProp kvs k) = Inr d"
    and run: "deserializeMembers rt keep kvs ks (h \<or> isRpcSecret d)
                (setProp k (unwrapRpcSecret d) acc) = Inr (h', obj)"
    by (auto split: sum.splits)
  from Cons.prems(1) d have "Q k (unwrapRpcSecret d)" by simp
  with Cons.prems(2) have acc: "\<forall>p\<in>set (setProp k (unwrapRpcSecret d) acc). Q (fst p) (snd p)"
    using set_setProp [of k "unwrapRpcSecret d" acc] by auto
  from Cons.prems(1) have "\<forall>k\<in>set ks. \<forall>d. deserializeProperty rt keep (getProp kvs k) = Inr d
              \<longrightarrow> Q k (unwrapRpcSecret d)"
    by simp
  from Cons.IH [OF this acc run] show ?case .
qed

lemma falsy_not_secret_sig:
  "\<not> truthy w \<Longrightarrow> deserializeProperty rt keep w = Inr d \<Longrightarrow>
   unwrapRpcSecret d \<noteq> DStr specialSecretSig"
  by (cases w) (auto simp: unknownValue_def specialSecretSig_def split: if_splits)

lemma deserializeProperty_tagged_result:
  assumes "truthy (getProp kvs specialSigKey)"
    and "deserializeProperty rt keep (WObj kvs) = Inr d"
  shows "(secretFree d \<and> \<not> isRpcSecret d)
       \<or> (getProp kvs specialSigKey = WStr specialSecretSig
            \<and> (\<exists>v. deserializeProperty rt keep (getProp kvs ''value'') = Inr v \<and> d = secretEnvelope v))
       \<or> (truthy (getProp kvs ''id'')
            \<and> deserializeProperty rt keep (getProp kvs ''id'') = Inr d)"
  using assms
  by (auto simp: Let_def split: if_splits sum.splits wire.splits option.splits prod.splits)


declare deserializeProperty.simps(7) [simp del]

lemma singlyWrapped_getProp:
  "singlyWrapped rt keep (WObj kvs) \<Longrightarrow> singlyWrapped rt keep (getProp kvs k)"
  using getProp_cases [of kvs k] by (auto simp: list_all_iff)

lemma deserializeProperty_secretFree:
  "deserializeProperty rt keep w = Inr d \<Longrightarrow> singlyWrapped rt keep w \<Longrightarrow>
   secretFree (unwrapRpcSecret d)"
proof (induction "wsz w" arbitrary: w d rule: less_induct)
  case less
  show ?case
  proof (cases w)
    case (WArr xs)
    with less.prems(1) obtain h elems where
      run: "deserializeElements rt keep xs False [] = Inr (h, elems)"
      and d: "d = (if h then secretEnvelope (DArr elems) else DArr elems)"
      by (auto split: sum.splits)
    have "\<forall>x\<in>set xs. \<forall>d. deserializeProperty rt keep x = Inr d \<longrightarrow> secretFree (unwrapRpcSecret d)"
    proof (intro ballI allI impI)
      fix x d'
      assume x: "x \<in> set xs" and d': "deserializeProperty rt keep x = Inr d'"
      from x have "wsz x < wsz w" using WArr wsz_element by simp
      moreover from x less.prems(2) WArr have "singlyWrapped rt keep x"
        by (simp add: list_all_iff)
      ultimately show "secretFree (unwrapRpcSecret d')"
        using less.hyps d' by blast
    qed
    from deserializeElements_all [OF this _ run] have "list_all secretFree elems"
      by simp
    with d show ?thesis by simp
  next
    case (WObj kvs)
    show ?thesis
    proof (cases "truthy (getProp kvs specialSigKey)")
      case False
      with less.prems(1) WObj obtain h obj where
        run: "deserializeMembers rt keep kvs (map fst kvs) False [] = Inr (h, obj)"
        and d: "d = (if h then secretEnvelope (DObj obj) else DObj obj)"
        by (auto simp: deserializeProperty_plain split: sum.splits)
      let ?Q = "\<lambda>k v. secretFree v \<and> (k = specialSigKey \<longrightarrow> v \<noteq> DStr specialSecretSig)"
      have "\<forall>k\<in>set (map fst kvs). \<forall>d. deserializeProperty rt keep (getProp kvs k) = Inr d
              \<longrightarrow> ?Q k (unwrapRpcSecret d)"
      proof (intro ballI allI impI)
        fix k d'
        assume d': "deserializeProperty rt keep (getProp kvs k) = Inr d'"
        have "secretFree (unwrapRpcSecret d')"
          using less.hyps [OF _ d'] wsz_getProp [of kvs k] WObj
            singlyWrapped_getProp [of rt keep kvs k] less.prems(2) by simp
        moreover have "unwrapRpcSecret d' \<noteq> DStr specialSecretSig" if "k = specialSigKey"
          using falsy_not_secret_sig [of "getProp kvs k" rt keep d'] False d' that by simp
        ultimately show "?Q k (unwrapRpcSecret d')" by simp
      qed
      from deserializeMembers_all [of "map fst kvs" rt keep kvs ?Q "[]", OF this _ run]
      have all: "\<forall>p\<in>set obj. ?Q (fst p) (snd p)" by simp
      have "\<not> isRpcSecret (DObj obj)"
      proof
        assume "isRpcSecret (DObj obj)"
        then have "(specialSigKey, DStr specialSecretSig) \<in> set obj"
          by (auto dest: map_of_SomeD)
        with all show False by auto
      qed
      moreover from all have "list_all (\<lambda>p. secretFree (snd p)) obj"
        by (simp add: list_all_iff)
      ultimately have "secretFree (DObj obj)" and "unwrapRpcSecret (DObj obj) = DObj obj"
        by simp_all
      with d show ?thesis by (cases h) simp_all
    next
      case True
      from deserializeProperty_tagged_result [OF True] less.prems(1) WObj
      consider (leaf) "secretFree d" "\<not> isRpcSecret d"
        | (secret) v where "getProp kvs specialSigKey = WStr specialSecretSig"
            "deserializeProperty rt keep (getProp kvs ''value'') = Inr v" "d = secretEnvelope v"
        | (ident) "deserializeProperty rt keep (getProp kvs ''id'') = Inr d"
        by blast
      then show ?thesis
      proof cases
        case leaf
        then show ?thesis by (simp add: unwrapRpcSecret_plain)
      next
        case secret
        from less.prems(2) WObj secret(1,2) have "\<not> isRpcSecret v"
          by (simp add: deserialized_def)
        moreover have "secretFree (unwrapRpcSecret v)"
          using less.hyps [OF _ secret(2)] wsz_getProp [of kvs "''value''"] WObj
            singlyWrapped_getProp [of rt keep kvs "''value''"] less.prems(2) by simp
        ultimately show ?thesis
          using secret(3) by (simp add: unwrapRpcSecret_plain)
      next
        case ident
        show ?thesis
          using less.hyps [OF _ ident] wsz_getProp [of kvs "''id''"] WObj
            singlyWrapped_getProp [of rt keep kvs "''id''"] less.prems(2) by simp
      qed
    qed
  qed (use less.prems in \<open>auto split: if_splits\<close>)
qed

text \<open>
  C5, as the code has it. When every element of an array deserializes and at least one
  of them to a secret envelope, the result is one secret envelope around the array of
  the elements, each unwrapped one level; the same holds for the members of an object
  that has no signature key. If moreover no secret envelope inside the protocol value has
  a payload that itself deserializes to a secret envelope, no secret envelope is left
  inside the returned array or object.
\<close>

theorem deserializeProperty_lifts_secrets:
  "((\<forall>x\<in>set xs. \<exists>v. deserializeProperty rt keepUnknowns x = Inr v)
      \<and> (\<exists>x\<in>set xs. isRpcSecret (deserialized rt keepUnknowns x)) \<longrightarrow>
    deserializeProperty rt keepUnknowns (WArr xs)
      = Inr (secretEnvelope (DArr (map (\<lambda>x. unwrapRpcSecret (deserialized rt keepUnknowns x)) xs)))
    \<and> (list_all (singlyWrapped rt keepUnknowns) xs \<longrightarrow>
         secretFree (DArr (map (\<lambda>x. unwrapRpcSecret (deserialized rt keepUnknowns x)) xs))))
   \<and> (map_of kvs specialSigKey = None \<and> distinct (map fst kvs)
      \<and> (\<forall>p\<in>set kvs. \<exists>v. deserializeProperty rt keepUnknowns (snd p) = Inr v)
      \<and> (\<exists>p\<in>set kvs. isRpcSecret (deserialized rt keepUnknowns (snd p))) \<longrightarrow>
    deserializeProperty rt keepUnknowns (WObj kvs)
      = Inr (secretEnvelope (DObj
          (map (\<lambda>p. (fst p, unwrapRpcSecret (deserialized rt keepUnknowns (snd p)))) kvs)))
    \<and> (list_all (\<lambda>p. singlyWrapped rt keepUnknowns (snd p)) kvs \<longrightarrow>
         secretFree (DObj
           (map (\<lambda>p. (fst p, unwrapRpcSecret (deserialized rt keepUnknowns (snd p)))) kvs))))"
proof (intro conjI impI)
  let ?elems = "map (\<lambda>x. unwrapRpcSecret (deserialized rt keepUnknowns x)) xs"
  assume a: "(\<forall>x\<in>set xs. \<exists>v. deserializeProperty rt keepUnknowns x = Inr v)
      \<and> (\<exists>x\<in>set xs. isRpcSecret (deserialized rt keepUnknowns x))"
  then show r: "deserializeProperty rt keepUnknowns (WArr xs) = Inr (secretEnvelope (DArr ?elems))"
    using deserializeElements_result [of xs rt keepUnknowns False "[]"] by simp
  assume "list_all (singlyWrapped rt keepUnknowns) xs"
  then have "singlyWrapped rt keepUnknowns (WArr xs)" by simp
  from deserializeProperty_secretFree [OF r this] show "secretFree (DArr ?elems)"
    by simp
next
  let ?obj = "map (\<lambda>p. (fst p, unwrapRpcSecret (deserialized rt keepUnknowns (snd p)))) kvs"
  assume a: "map_of kvs specialSigKey = None \<and> distinct (map fst kvs)
      \<and> (\<forall>p\<in>set kvs. \<exists>v. deserializeProperty rt keepUnknowns (snd p) = Inr v)
      \<and> (\<exists>p\<in>set kvs. isRpcSecret (deserialized rt keepUnknowns (snd p)))"
  then have plain: "\<not> truthy (getProp kvs specialSigKey)"
    by (simp add: getProp_def)
  from a have "deserializeMembers rt keepUnknowns kvs (map fst kvs) False
                 (map (\<lambda>p. (fst p, unwrapRpcSecret (deserialized rt keepUnknowns (snd p)))) [])
               = Inr (False \<or> (\<exists>p\<in>set kvs. isRpcSecret (deserialized rt keepUnknowns (snd p))), ?obj)"
    by (intro deserializeMembers_result) simp_all
  with a show r: "deserializeProperty rt keepUnknowns (WObj kvs) = Inr (secretEnvelope (DObj ?obj))"
    by (simp add: deserializeProperty_plain [OF plain])
  assume "list_all (\<lambda>p. singlyWrapped rt keepUnknowns (snd p)) kvs"
  with a have "singlyWrapped rt keepUnknowns (WObj kvs)"
    by (simp add: getProp_def)
  from deserializeProperty_secretFree [OF r this] show "secretFree (DObj ?obj)"
    by simp
qed

theorem deserializeProperty_lifts_secrets_witness:
  "deserializeProperty emptyRuntime False
     (WArr [WNum 1, WObj [(specialSigKey, WStr specialSecretSig), (''value'', WStr ''hi'')]])
     = Inr (secretEnvelope (DArr [DNum 1, DStr ''hi'']))
   \<and> secretFree (DArr [DNum 1, DStr ''hi''])
   \<and> deserializeProperty emptyRuntime False
       (WObj [(''x'', WObj [(specialSigKey, WStr specialSecretSig), (''value'', WStr ''hi'')])])
     = Inr (secretEnvelope (DObj [(''x'', DStr ''hi'')]))
   \<and> secretFree (DObj [(''x'', DStr ''hi'')])"
proof -
  let ?s = "WObj [(specialSigKey, WStr specialSecretSig), (''value'', WStr ''hi'')]"
  have e1: "deserializeProperty emptyRuntime False (WNum 1) = Inr (DNum 1)"
    by simp
  have e2: "deserializeProperty emptyRuntime False ?s = Inr (secretEnvelope (DStr ''hi''))"
    by code_simp
  have arr: "(\<forall>x\<in>set [WNum 1, ?s]. \<exists>v. deserializeProperty emptyRuntime False x = Inr v)
      \<and> (\<exists>x\<in>set [WNum 1, ?s]. isRpcSecret (deserialized emptyRuntime False x))"
    using e1 e2 by (simp add: deserialized_def)
  have arrw: "list_all (singlyWrapped emptyRuntime False) [WNum 1, ?s]"
    using e2 by (simp add: deserialized_def getProp_def)
  have obj: "map_of [(''x'', ?s)] specialSigKey = None \<and> distinct (map fst [(''x'', ?s)])
      \<and> (\<forall>p\<in>set [(''x'', ?s)]. \<exists>v. deserializeProperty emptyRuntime False (snd p) = Inr v)
      \<and> (\<exists>p\<in>set [(''x'', ?s)]. isRpcSecret (deserialized emptyRuntime False (snd p)))"
    using e2 by (simp add: deserialized_def specialSigKey_def)
  have objw: "list_all (\<lambda>p. singlyWrapped emptyRuntime False (snd p)) [(''x'', ?s)]"
    using e2 by (simp add: deserialized_def getProp_def)
  from deserializeProperty_lifts_secrets [of "[WNum 1, ?s]" emptyRuntime False "[(''x'', ?s)]"]
    arr arrw obj objw
  show ?thesis
    using e1 e2 by (simp add: deserialized_def)
qed

text \<open>
  C5 as stated fails on a secret envelope around a secret envelope: the element
  deserializes to a secret envelope, one level is unwrapped, and the inner envelope stays
  inside the returned array.
\<close>

theorem deserializeProperty_nested_secret_counterexample:
  "deserializeProperty emptyRuntime False
       (WArr [WObj [(specialSigKey, WStr specialSecretSig),
                    (''value'', WObj [(specialSigKey, WStr specialSecretSig), (''value'', WNum 1)])]])
     = Inr (secretEnvelope (DArr [secretEnvelope (DNum 1)]))
   \<and> isRpcSecret (deserialized emptyRuntime False
         (WObj [(specialSigKey, WStr specialSecretSig),
                (''value'', WObj [(specialSigKey, WStr specialSecretSig), (''value'', WNum 1)])]))
   \<and> \<not> secretFree (DArr [secretEnvelope (DNum 1)])"
  by code_simp


text \<open>
  C2, at the input where the code and the specification part. With nothing registered, a resource
  reference whose \<open>id\<close> is the empty string deserializes to its URN, in or out of a
  preview and whatever \<open>keepUnknowns\<close> is: \<open>if (prop["id"])\<close> is false for the empty
  string, so the promotion \<open>id === "" ? unknownValue : id\<close> inside it is never reached.
\<close>

theorem deserializeProperty_empty_id_returns_urn:
  "deserializeProperty
     \<lparr>isDryRun = dryRun, parseVersion = parse,
      resourcePackages = Map.empty, resourceModules = Map.empty\<rparr>
     keepUnknowns
     (WObj [(specialSigKey, WStr specialResourceSig),
            (''urn'', WStr ''urn:pulumi:stack::proj::pkg:mod:Typ::name''),
            (''id'', WStr [])])
   = Inr (DStr ''urn:pulumi:stack::proj::pkg:mod:Typ::name'')"
  by code_simp

section \<open>Properties of the forward marshaler\<close>

lemma set_addResource [simp]: "set (addResource r s) = insert r (set s)"
  by (auto simp: addResource_def)

lemma set_addAll [simp]: "set (addAll rs s) = set s \<union> set rs"
  unfolding addAll_def by (induction rs arbitrary: s) auto

lemma addAll_Nil [simp]: "addAll [] s = s"
  by (simp add: addAll_def)

lemma serializeProperty_outputInput:
  "serializeProperty st
     (outputInput (Lazy (Resolved rs) (Resolved isKnown) (Resolved secret) (Resolved v)))
     deps noOutputValues
   = Resolved (serializedString st isKnown secret v, map_option (addAll rs) deps)"
  by (cases v; cases deps)
     (simp_all add: outputInput_def stringInput_def serializedString_def noOutputValues_def
        elements_def Let_def)

text \<open>
  C9. A component whose \<open>urn\<close> output has resolved serializes to its URN alone: the
  resource-reference envelope \<open>{sig, urn}\<close> when the store supports resource references,
  else the serialized urn. The call returns, and its result does not depend on the other
  properties of the resources, so a component that holds itself (or a child that holds
  it) is serialized like any other.
\<close>

theorem serializeProperty_component:
  assumes "urnOf st c = Lazy (Resolved rs) (Resolved isKnown) (Resolved secret) (Resolved urn)"
  shows "serializeProperty st (IComponentResource c) dependentResources opts
      = Resolved
          (if supportsResourceReferences st
           then WObj [(specialSigKey, WStr specialResourceSig),
                      (''urn'', serializedString st isKnown secret urn)]
           else serializedString st isKnown secret urn,
           if supportsResourceReferences st \<and> excludeResourceReferencesFromDependencies opts
           then dependentResources
           else map_option (addAll rs) dependentResources)
    \<and> serializeProperty (st\<lparr>propertiesOf := children\<rparr>) (IComponentResource c)
          dependentResources opts
      = serializeProperty st (IComponentResource c) dependentResources opts"
  using assms by (simp add: serializeProperty_outputInput serializedString_def Let_def)



lemma serializeElements_collects:
  assumes "\<forall>x\<in>set xs. \<forall>ds. \<exists>w ds'. serializeProperty st x (Some ds) opts = Resolved (w, Some ds')
              \<and> set ds' = set ds \<union> F x"
  shows "\<exists>w ds'. serializeElements st xs result (Some ds) opts = Resolved (w, Some ds')
           \<and> set ds' = set ds \<union> (\<Union>x\<in>set xs. F x)"
  using assms
proof (induction xs arbitrary: result ds)
  case Nil
  then show ?case by simp
next
  case (Cons x xs)
  then obtain w ds1 where x: "serializeProperty st x (Some ds) opts = Resolved (w, Some ds1)"
    and ds1: "set ds1 = set ds \<union> F x"
    by (meson list.set_intros(1))
  from Cons.prems have "\<forall>x\<in>set xs. \<forall>ds. \<exists>w ds'. serializeProperty st x (Some ds) opts = Resolved (w, Some ds')
              \<and> set ds' = set ds \<union> F x"
    by simp
  from Cons.IH [OF this, of "result @ [if w = WUndefined then WNull else w]" ds1]
  obtain w' ds' where "serializeElements st xs (result @ [if w = WUndefined then WNull else w])
        (Some ds1) opts = Resolved (w', Some ds')"
    and "set ds' = set ds1 \<union> (\<Union>x\<in>set xs. F x)"
    by blast
  with x ds1 show ?case by auto
qed

lemma serializeAllKeys_collects:
  assumes "\<forall>k\<in>set ks. \<forall>ds. \<exists>w ds'. serializeProperty st (getInput kvs k) (Some ds) opts
                = Resolved (w, Some ds')
              \<and> set ds' = set ds \<union> F (getInput kvs k)"
  shows "\<exists>w ds'. serializeAllKeys st kvs ks obj (Some ds) opts = Resolved (w, Some ds')
           \<and> set ds' = set ds \<union> (\<Union>k\<in>set ks. F (getInput kvs k))"
  using assms
proof (induction ks arbitrary: obj ds)
  case Nil
  then show ?case by simp
next
  case (Cons k ks)
  then obtain w ds1 where
    x: "serializeProperty st (getInput kvs k) (Some ds) opts = Resolved (w, Some ds1)"
    and ds1: "set ds1 = set ds \<union> F (getInput kvs k)"
    by (meson list.set_intros(1))
  from Cons.prems have "\<forall>k\<in>set ks. \<forall>ds. \<exists>w ds'. serializeProperty st (getInput kvs k) (Some ds) opts
                = Resolved (w, Some ds')
              \<and> set ds' = set ds \<union> F (getInput kvs k)"
    by simp
  from Cons.IH [OF this, of "if w \<noteq> WUndefined then setProp k w obj else obj" ds1]
  obtain w' ds' where "serializeAllKeys st kvs ks (if w \<noteq> WUndefined then setProp k w obj else obj)
        (Some ds1) opts = Resolved (w', Some ds')"
    and "set ds' = set ds1 \<union> (\<Union>k\<in>set ks. F (getInput kvs k))"
    by blast
  with x ds1 show ?case by auto
qed

lemma getInput_distinct:
  "distinct (map fst kvs) \<Longrightarrow> (k, v) \<in> set kvs \<Longrightarrow> getInput kvs k = v"
  by (simp add: getInput_def)

lemma getInput_keys_union:
  assumes "distinct (map fst kvs)"
  shows "(\<Union>k\<in>set (map fst kvs). F (getInput kvs k)) = (\<Union>p\<in>set kvs. F (snd p))"
proof -
  have "F (getInput kvs (fst p)) = F (snd p)" if "p \<in> set kvs" for p
    using getInput_distinct [OF assms, of "fst p" "snd p"] that by simp
  then show ?thesis by auto
qed

lemma isz_element: "x \<in> set xs \<Longrightarrow> isz x < isz (IArr xs)"
  by (induction xs) auto

lemma serializeProperty_custom:
  assumes "settledOwn r (idOf st r)" and "settledOwn r (urnOf st r)"
  shows "\<exists>w ds'. serializeProperty st (ICustomResource r) (Some ds) opts = Resolved (w, Some ds')
           \<and> set ds' = set ds \<union> (if excluding st opts then {} else {r})"
proof -
  from assms(1) obtain rs1 k1 s1 v1 where
    i: "idOf st r = Lazy (Resolved rs1) (Resolved k1) (Resolved s1) (Resolved v1)"
    and r1: "set rs1 \<subseteq> {r}"
    by (auto simp: settledOwn_def split: lazy.splits async.splits)
  from assms(2) obtain rs2 k2 s2 v2 where
    u: "urnOf st r = Lazy (Resolved rs2) (Resolved k2) (Resolved s2) (Resolved v2)"
    and r2: "set rs2 \<subseteq> {r}"
    by (auto simp: settledOwn_def split: lazy.splits async.splits)
  have sid: "serializeProperty st (outputInput (idOf st r)) d noOutputValues
      = Resolved (serializedString st k1 s1 v1, map_option (addAll rs1) d)" for d
    unfolding i by (rule serializeProperty_outputInput)
  have surn: "serializeProperty st (outputInput (urnOf st r)) d noOutputValues
      = Resolved (serializedString st k2 s2 v2, map_option (addAll rs2) d)" for d
    unfolding u by (rule serializeProperty_outputInput)
  show ?thesis
  proof (cases "excluding st opts")
    case True
    then show ?thesis
      by (simp add: sid surn excluding_def)
  next
    case False
    then show ?thesis
      using r1 r2 by (auto simp: sid surn excluding_def Let_def)
  qed
qed

lemma serializeProperty_collects:
  assumes "plainValue v"
    and "\<forall>r\<in>customResources v. settledOwn r (idOf st r) \<and> settledOwn r (urnOf st r)"
  shows "\<exists>w ds'. serializeProperty st v (Some ds) opts = Resolved (w, Some ds')
           \<and> set ds' = set ds \<union> (if excluding st opts then {} else customResources v)"
  using assms
proof (induction "isz v" arbitrary: v ds rule: less_induct)
  case less
  let ?F = "\<lambda>x. if excluding st opts then {} else customResources x"
  show ?case
  proof (cases v)
    case (ICustomResource r)
    with less.prems serializeProperty_custom [of r st ds opts] show ?thesis
      by (auto simp del: serializeProperty.simps split: if_splits)
  next
    case (IPromise p)
    with less.prems(1) obtain x where p: "p = Resolved x" and "plainValue x"
      by (cases p) auto
    with less.hyps [of x ds] less.prems(2) IPromise show ?thesis
      by (auto split: if_splits)
  next
    case (IArr xs)
    have "\<forall>x\<in>set xs. \<forall>ds. \<exists>w ds'. serializeProperty st x (Some ds) opts = Resolved (w, Some ds')
              \<and> set ds' = set ds \<union> ?F x"
    proof (intro ballI allI)
      fix x ds0
      assume x: "x \<in> set xs"
      then have "isz x < isz v" using IArr isz_element by simp
      moreover from x less.prems(1) IArr have "plainValue x" by (simp add: list_all_iff)
      moreover from x less.prems(2) IArr
      have "\<forall>r\<in>customResources x. settledOwn r (idOf st r) \<and> settledOwn r (urnOf st r)"
        by auto
      ultimately show "\<exists>w ds'. serializeProperty st x (Some ds0) opts = Resolved (w, Some ds')
              \<and> set ds' = set ds0 \<union> ?F x"
        using less.hyps by blast
    qed
    from serializeElements_collects [OF this, of "[]" ds] IArr show ?thesis
      by (auto split: if_splits)
  next
    case (IObj kvs)
    from less.prems(1) IObj have d: "distinct (map fst kvs)" by simp
    have "\<forall>k\<in>set (map fst kvs). \<forall>ds. \<exists>w ds'.
              serializeProperty st (getInput kvs k) (Some ds) opts = Resolved (w, Some ds')
              \<and> set ds' = set ds \<union> ?F (getInput kvs k)"
    proof (intro ballI allI)
      fix k ds0
      assume "k \<in> set (map fst kvs)"
      then obtain x where kx: "(k, x) \<in> set kvs" by auto
      with d have g: "getInput kvs k = x" by (rule getInput_distinct)
      have "isz x < isz v" using isz_getInput [of kvs k] g IObj by simp
      moreover from kx less.prems(1) IObj have "plainValue x" by (auto simp: list_all_iff)
      moreover from kx less.prems(2) IObj
      have "\<forall>r\<in>customResources x. settledOwn r (idOf st r) \<and> settledOwn r (urnOf st r)"
        by force
      ultimately show "\<exists>w ds'. serializeProperty st (getInput kvs k) (Some ds0) opts
                = Resolved (w, Some ds')
              \<and> set ds' = set ds0 \<union> ?F (getInput kvs k)"
        using less.hyps g by blast
    qed
    from serializeAllKeys_collects [OF this, of "[]" ds]
      getInput_keys_union [OF d, of ?F] IObj
    show ?thesis by (auto split: if_splits)
  qed (use less.prems in auto)
qed


text \<open>
  C6, as the code has it. For a value built from primitives, custom resources, arrays,
  objects and resolved promises, whose resources have resolved \<open>urn\<close> and \<open>id\<close> outputs of
  their own, the set that \<open>serializeProperty\<close> fills is empty when
  \<open>excludeResourceReferencesFromDependencies\<close> is set and resource references are
  supported, and the set of the custom resources of the value otherwise.
\<close>

theorem serializeProperty_dependencies:
  assumes "plainValue v"
    and "\<forall>r\<in>customResources v. settledOwn r (idOf st r) \<and> settledOwn r (urnOf st r)"
  shows "\<exists>w ds. serializeProperty st v (Some []) opts = Resolved (w, Some ds)
           \<and> set ds = (if excludeResourceReferencesFromDependencies opts
                             \<and> supportsResourceReferences st
                          then {} else customResources v)"
  using serializeProperty_collects [OF assms, of "[]" opts]
  by (simp add: excluding_def)

theorem serializeProperty_dependencies_witness:
  "plainValue (IObj [(''a'', ICustomResource 1),
                     (''b'', IArr [ICustomResource 2, IPromise (Resolved (ICustomResource 1))])])
   \<and> serializeProperty exampleStore
         (IObj [(''a'', ICustomResource 1),
                (''b'', IArr [ICustomResource 2, IPromise (Resolved (ICustomResource 1))])])
         (Some [])
         \<lparr>keepOutputValues = False, excludeResourceReferencesFromDependencies = False\<rparr>
       = Resolved
           (WObj [(''a'', WObj [(specialSigKey, WStr specialResourceSig),
                               (''urn'', WStr ''urn:1''), (''id'', WStr ''id-1'')]),
                  (''b'', WArr [WObj [(specialSigKey, WStr specialResourceSig),
                                     (''urn'', WStr ''urn:2''), (''id'', WStr ''id-2'')],
                               WObj [(specialSigKey, WStr specialResourceSig),
                                     (''urn'', WStr ''urn:1''), (''id'', WStr ''id-1'')]])],
            Some [1, 2])
   \<and> (\<exists>w. serializeProperty exampleStore
          (IObj [(''a'', ICustomResource 1),
                 (''b'', IArr [ICustomResource 2, IPromise (Resolved (ICustomResource 1))])])
          (Some [])
          \<lparr>keepOutputValues = False, excludeResourceReferencesFromDependencies = True\<rparr>
        = Resolved (w, Some []))"
proof -
  let ?v = "IObj [(''a'', ICustomResource 1),
                  (''b'', IArr [ICustomResource 2, IPromise (Resolved (ICustomResource 1))])]"
  let ?keep = "\<lparr>keepOutputValues = False, excludeResourceReferencesFromDependencies = False\<rparr>"
  let ?drop = "\<lparr>keepOutputValues = False, excludeResourceReferencesFromDependencies = True\<rparr>"
  have p: "plainValue ?v" by simp
  have own: "\<forall>r\<in>customResources ?v.
      settledOwn r (idOf exampleStore r) \<and> settledOwn r (urnOf exampleStore r)"
    by (simp add: settledOwn_def exampleStore_def)
  have a: "serializeProperty exampleStore ?v (Some []) ?keep
       = Resolved
           (WObj [(''a'', WObj [(specialSigKey, WStr specialResourceSig),
                               (''urn'', WStr ''urn:1''), (''id'', WStr ''id-1'')]),
                  (''b'', WArr [WObj [(specialSigKey, WStr specialResourceSig),
                                     (''urn'', WStr ''urn:2''), (''id'', WStr ''id-2'')],
                               WObj [(specialSigKey, WStr specialResourceSig),
                                     (''urn'', WStr ''urn:1''), (''id'', WStr ''id-1'')]])],
            Some [1, 2])"
    by code_simp
  from serializeProperty_dependencies [OF p own, of ?drop]
  have b: "\<exists>w. serializeProperty exampleStore ?v (Some []) ?drop = Resolved (w, Some [])"
    by (auto simp: exampleStore_def)
  from p a b show ?thesis by blast
qed

text \<open>
  C6 as stated fails for a custom resource inside an output: the value of an output is
  serialized with the options reset to \<open>{ keepOutputValues: false }\<close>, so the resource is
  collected although \<open>excludeResourceReferencesFromDependencies\<close> is set and resource
  references are supported.
\<close>

theorem serializeProperty_output_wrapped_counterexample:
  "serializeProperty exampleStore
     (IOutput (Lazy (Resolved []) (Resolved True) (Resolved (Some False))
                    (Resolved (ICustomResource 1))))
     (Some [])
     \<lparr>keepOutputValues = False, excludeResourceReferencesFromDependencies = True\<rparr>
   = Resolved (WObj [(specialSigKey, WStr specialResourceSig),
                     (''urn'', WStr ''urn:1''), (''id'', WStr ''id-1'')],
               Some [1])
   \<and> supportsResourceReferences exampleStore"
  by code_simp


theorem serializeProperty_component_witness:
  "propertiesOf exampleStore 3 = [(''self'', IComponentResource 3)]
   \<and> serializeProperty exampleStore (IComponentResource 3) (Some [])
       \<lparr>keepOutputValues = True, excludeResourceReferencesFromDependencies = False\<rparr>
     = Resolved (WObj [(specialSigKey, WStr specialResourceSig), (''urn'', WStr ''urn:3'')], Some [3])
   \<and> serializeProperty (exampleStore\<lparr>supportsResourceReferences := False\<rparr>)
       (IComponentResource 3) (Some [])
       \<lparr>keepOutputValues = True, excludeResourceReferencesFromDependencies = False\<rparr>
     = Resolved (WStr ''urn:3'', Some [3])"
proof -
  let ?opts = "\<lparr>keepOutputValues = True, excludeResourceReferencesFromDependencies = False\<rparr>"
  have s3: "showNat 3 = ''3''" by code_simp
  have u: "urnOf exampleStore 3
      = Lazy (Resolved [3]) (Resolved True) (Resolved (Some False)) (Resolved (Some ''urn:3''))"
    by (simp add: exampleStore_def s3)
  have u': "urnOf (exampleStore\<lparr>supportsResourceReferences := False\<rparr>) 3
      = Lazy (Resolved [3]) (Resolved True) (Resolved (Some False)) (Resolved (Some ''urn:3''))"
    by (simp add: exampleStore_def s3)
  from serializeProperty_component [OF u, of "Some []" ?opts]
    serializeProperty_component [OF u', of "Some []" ?opts]
  show ?thesis
    by (simp add: exampleStore_def serializedString_def addAll_def addResource_def)
qed

end
